theory Spec2Isabelle
  imports Complex_Main "HOL-Library.Word" "HOL-Library.AList" "HOL-Library.Log_Nat"
begin

section \<open>Strings of UTF-16 code units\<close>

text \<open>
  A JavaScript string is a sequence of 16-bit code units. String literals of the
  source are written \<open>lit ''...''\<close>. Texts that the program only ever writes out
  (messages, alerts, the page a navigation goes to) are plain \<open>string\<close>s.
\<close>

type_synonym jschar = "16 word"
type_synonym jsstring = "jschar list"

definition lit :: "string \<Rightarrow> jsstring" where
  "lit s = map of_char s"

text \<open>
  The characters removed by \<^verbatim>\<open>String.prototype.trim\<close> and matched by the regular
  expression class \<^verbatim>\<open>\s\<close>: ECMAScript's WhiteSpace and LineTerminator.
\<close>

definition is_space :: "jschar \<Rightarrow> bool" where
  "is_space c \<longleftrightarrow>
     c = 0x09 \<or> c = 0x0A \<or> c = 0x0B \<or> c = 0x0C \<or> c = 0x0D \<or> c = 0x20 \<or> c = 0xA0 \<or>
     c = 0x1680 \<or> (0x2000 \<le> c \<and> c \<le> 0x200A) \<or> c = 0x2028 \<or> c = 0x2029 \<or>
     c = 0x202F \<or> c = 0x205F \<or> c = 0x3000 \<or> c = 0xFEFF"

definition is_digit :: "jschar \<Rightarrow> bool" where
  "is_digit c \<longleftrightarrow> 0x30 \<le> c \<and> c \<le> 0x39"

definition is_alnum :: "jschar \<Rightarrow> bool" where
  "is_alnum c \<longleftrightarrow> is_digit c \<or> (0x41 \<le> c \<and> c \<le> 0x5A) \<or> (0x61 \<le> c \<and> c \<le> 0x7A)"

definition trim :: "jsstring \<Rightarrow> jsstring" where
  "trim s = rev (dropWhile is_space (rev (dropWhile is_space s)))"

text \<open>\<^verbatim>\<open>function normalizeText(value) { return value ? value.trim() : ""; }\<close>\<close>

definition normalizeText :: "jsstring \<Rightarrow> jsstring" where
  "normalizeText v = (if v \<noteq> [] then trim v else [])"

text \<open>
  \<^verbatim>\<open>/^[a-z0-9]+$/i.test(s)\<close>: one or more characters, each of the class. Without the
  \<^verbatim>\<open>u\<close> flag, case-insensitive matching never maps a code unit above 127 to one below
  128, so the class holds exactly the ASCII letters and digits.
\<close>

definition re_alnum_test :: "jsstring \<Rightarrow> bool" where
  "re_alnum_test s \<longleftrightarrow> s \<noteq> [] \<and> list_all is_alnum s"

text \<open>\<^verbatim>\<open>/\d/.test(s)\<close>: some character is an ASCII digit.\<close>

definition re_digit_test :: "jsstring \<Rightarrow> bool" where
  "re_digit_test s \<longleftrightarrow> list_ex is_digit s"

text \<open>
  \<^verbatim>\<open>s.split(/\s+/)\<close>: the pieces between maximal runs of white space; a run at the start
  or at the end of the string leaves an empty piece there, and the empty string
  splits into one empty piece.
\<close>

function split_ws :: "jsstring \<Rightarrow> jsstring list" where
  "split_ws s =
     (let p = takeWhile (\<lambda>c. \<not> is_space c) s;
          r = dropWhile (\<lambda>c. \<not> is_space c) s
      in if r = [] then [p] else p # split_ws (dropWhile is_space r))"
  by pat_completeness auto
termination
proof (relation "measure length")
  show "wf (measure length)" by simp
next
  fix s :: jsstring and p r
  assume r: "r = dropWhile (\<lambda>c. \<not> is_space c) s" and ne: "r \<noteq> []"
  from ne obtain c cs where rc: "r = c # cs" by (cases r) auto
  have "length (dropWhile is_space r) \<le> length cs"
  proof (cases "is_space c")
    case True
    then show ?thesis using rc by (simp add: length_dropWhile_le)
  next
    case False
    have "\<not> (\<not> is_space (hd (dropWhile (\<lambda>c. \<not> is_space c) s)))"
      using ne r hd_dropWhile[of "\<lambda>c. \<not> is_space c" s] by blast
    then show ?thesis using False rc r by simp
  qed
  moreover have "length r \<le> length s" using r by (simp add: length_dropWhile_le)
  ultimately show "(dropWhile is_space r, s) \<in> measure length" using rc by simp
qed

declare split_ws.simps [simp del]

text \<open>\<^verbatim>\<open>operatorName.split(/\s+/).filter(Boolean)\<close>: the non-empty pieces.\<close>

definition operatorParts_of :: "jsstring \<Rightarrow> jsstring list" where
  "operatorParts_of operatorName = filter (\<lambda>p. p \<noteq> []) (split_ws operatorName)"

section \<open>Numbers\<close>

text \<open>
  A number is a sign and a magnitude, a rational, and stands for the double nearest to
  it, ties to even. The tests the program makes on a number are decided on the
  magnitude by the rounding thresholds of binary64: the double is zero iff the magnitude
  is at most \<open>2\<^sup>-\<^sup>1\<^sup>0\<^sup>7\<^sup>5\<close> (half the least subnormal), and it is infinite iff the magnitude
  is at least \<open>2\<^sup>1\<^sup>0\<^sup>2\<^sup>4 - 2\<^sup>9\<^sup>7\<^sup>0\<close> (the largest double plus half its last place).
  \<^verbatim>\<open>parseFloat\<close> keeps the exact value of the literal it reads, which the program only
  tests; \<^verbatim>\<open>JSON.parse\<close> rounds, so that the numbers in a parsed value are the doubles
  themselves and two literals of one double give one value. For a literal of more than
  20 significant digits ECMAScript lets an engine round from the first 20 digits; the
  rounding here is the exact one.
\<close>

definition rounds_to_zero :: "rat \<Rightarrow> bool" where
  "rounds_to_zero q \<longleftrightarrow> \<bar>q\<bar> \<le> 1 / 2 ^ 1075"

definition rounds_to_infinity :: "rat \<Rightarrow> bool" where
  "rounds_to_infinity q \<longleftrightarrow> 2 ^ 1024 - 2 ^ 970 \<le> \<bar>q\<bar>"

definition digit_val :: "jschar \<Rightarrow> nat" where
  "digit_val c = unat c - 48"

definition digits_val :: "jsstring \<Rightarrow> nat" where
  "digits_val ds = foldl (\<lambda>a c. 10 * a + digit_val c) 0 ds"

text \<open>The value \<open>m \<times> 10\<^sup>e\<close> of a literal with digits \<open>m\<close> and decimal exponent \<open>e\<close>.\<close>

definition scale10 :: "nat \<Rightarrow> int \<Rightarrow> rat" where
  "scale10 m e = (if 0 \<le> e then of_nat m * 10 ^ nat e else of_nat m / 10 ^ nat (- e))"

datatype jsnumber = NaN | Infinity bool | Finite bool rat

text \<open>
  \<open>\<lfloor>log\<^sub>2 q\<rfloor>\<close> for a positive \<open>q\<close>: the bit lengths of numerator and denominator give
  it up to one, and a comparison decides.
\<close>

definition floor_log2 :: "rat \<Rightarrow> int" where
  "floor_log2 q =
     (let (a, b) = quotient_of q; e = bitlen a - bitlen b
      in if 2 powi e \<le> q then e else e - 1)"

text \<open>
  The double nearest to a magnitude below the overflow threshold. The doubles around
  \<open>q\<close> are the multiples of \<open>u = 2\<^sup>e\<^sup>-\<^sup>5\<^sup>2\<close> for \<open>e = \<lfloor>log\<^sub>2 q\<rfloor>\<close>, and of \<open>2\<^sup>-\<^sup>1\<^sup>0\<^sup>7\<^sup>4\<close> below the
  least normal double; \<open>q / u\<close> is rounded to the nearest integer, a tie to the even one.
\<close>

definition binary64 :: "rat \<Rightarrow> rat" where
  "binary64 q =
     (if q \<le> 0 then 0
      else
        let u = 2 powi max (floor_log2 q - 52) (- 1074);
            n = \<lfloor>q / u\<rfloor>;
            f = q / u - of_int n
        in of_int (if f < 1 / 2 \<or> (f = 1 / 2 \<and> even n) then n else n + 1) * u)"

text \<open>The double of a literal with the magnitude \<open>q\<close>.\<close>

definition to_double :: "bool \<Rightarrow> rat \<Rightarrow> jsnumber" where
  "to_double neg q = (if rounds_to_infinity q then Infinity neg else Finite neg (binary64 q))"

text \<open>
  The exponent part of a decimal literal, \<^verbatim>\<open>e\<close> or \<^verbatim>\<open>E\<close>, an optional sign and at least
  one digit: its value and what follows it. \<open>None\<close> when the text does not start with
  a complete exponent part.
\<close>

definition exponent_part :: "jsstring \<Rightarrow> (int \<times> jsstring) option" where
  "exponent_part s =
     (case s of
        [] \<Rightarrow> None
      | c # r \<Rightarrow>
          if c = 0x65 \<or> c = 0x45 then
            (let (neg, u) = (case r of
                               [] \<Rightarrow> (False, r)
                             | d # r' \<Rightarrow> if d = 0x2D then (True, r')
                                        else if d = 0x2B then (False, r') else (False, r));
                 ds = takeWhile is_digit u
             in if ds = [] then None
                else Some (if neg then - int (digits_val ds) else int (digits_val ds),
                           dropWhile is_digit u))
          else None)"

text \<open>
  \<^verbatim>\<open>Number.parseFloat(s)\<close>: leading white space is skipped, then the longest prefix that
  is a decimal literal (an optional sign, then \<^verbatim>\<open>Infinity\<close>, or digits with an optional
  fraction, or a fraction alone, and an optional exponent part) gives the value;
  whatever follows that prefix is ignored. \<open>NaN\<close> when no prefix is a literal.
\<close>

definition unsigned_literal :: "bool \<Rightarrow> jsstring \<Rightarrow> jsnumber" where
  "unsigned_literal neg u =
     (if take 8 u = lit ''Infinity'' then Infinity neg
      else
        let ip = takeWhile is_digit u;
            r1 = dropWhile is_digit u;
            (fp, r2) = (case r1 of
                          [] \<Rightarrow> ([], r1)
                        | c # r \<Rightarrow> if c = 0x2E
                                   then (takeWhile is_digit r, dropWhile is_digit r)
                                   else ([], r1))
        in if ip = [] \<and> fp = [] then NaN
           else
             let ex = (case exponent_part r2 of None \<Rightarrow> 0 | Some (e, _) \<Rightarrow> e)
             in Finite neg (scale10 (digits_val (ip @ fp)) (ex - int (length fp))))"

definition signed_literal :: "jsstring \<Rightarrow> jsnumber" where
  "signed_literal t =
     (case t of
        [] \<Rightarrow> unsigned_literal False t
      | c # r \<Rightarrow> if c = 0x2D then unsigned_literal True r
                 else if c = 0x2B then unsigned_literal False r
                 else unsigned_literal False t)"

definition parseFloat :: "jsstring \<Rightarrow> jsnumber" where
  "parseFloat s = signed_literal (dropWhile is_space s)"

text \<open>\<^verbatim>\<open>Number.isFinite(v)\<close>, \<^verbatim>\<open>v <= 0\<close> and \<^verbatim>\<open>v === 0\<close> on the double of a number.\<close>

fun isFinite :: "jsnumber \<Rightarrow> bool" where
  "isFinite NaN = False"
| "isFinite (Infinity _) = False"
| "isFinite (Finite _ q) = (\<not> rounds_to_infinity q)"

fun le_zero :: "jsnumber \<Rightarrow> bool" where
  "le_zero NaN = False"
| "le_zero (Infinity neg) = neg"
| "le_zero (Finite neg q) = (neg \<or> rounds_to_zero q)"

fun is_zero :: "jsnumber \<Rightarrow> bool" where
  "is_zero (Finite _ q) = rounds_to_zero q"
| "is_zero _ = False"

section \<open>Values and JSON\<close>

text \<open>
  The values that \<^verbatim>\<open>JSON.parse\<close> produces. An object is the list of its properties in
  insertion order with distinct keys; the order in which an engine enumerates
  integer-like keys first is not modelled, and no property below depends on it.
\<close>

datatype jsvalue =
    JNull
  | JBool bool
  | JNum jsnumber
  | JStr jsstring
  | JArr "jsvalue list"
  | JObj "(jsstring \<times> jsvalue) list"

text \<open>Truthiness of a value, as \<^verbatim>\<open>!v\<close>, \<^verbatim>\<open>v || w\<close> and \<^verbatim>\<open>v ? a : b\<close> test it.\<close>

fun truthy :: "jsvalue \<Rightarrow> bool" where
  "truthy JNull = False"
| "truthy (JBool b) = b"
| "truthy (JNum x) = (x \<noteq> NaN \<and> \<not> is_zero x)"
| "truthy (JStr s) = (s \<noteq> [])"
| "truthy (JArr _) = True"
| "truthy (JObj _) = True"

text \<open>A property read \<^verbatim>\<open>v.name\<close> may give \<^verbatim>\<open>undefined\<close>, here \<open>None\<close>, which is falsy.\<close>

fun truthy_opt :: "jsvalue option \<Rightarrow> bool" where
  "truthy_opt None = False"
| "truthy_opt (Some v) = truthy v"

text \<open>
  \<^verbatim>\<open>v.name\<close> for the property names the program reads (\<^verbatim>\<open>boxNumber\<close>, \<^verbatim>\<open>product\<close>, ...):
  none of them is an index or \<^verbatim>\<open>length\<close>, nor a property of a prototype, so only an
  object can have one.
\<close>

fun get_prop :: "jsvalue \<Rightarrow> jsstring \<Rightarrow> jsvalue option" where
  "get_prop (JObj kvs) k = map_of kvs k"
| "get_prop _ k = None"

function dec_of_nat :: "nat \<Rightarrow> jsstring" where
  "dec_of_nat n = (if n < 10 then [of_nat (48 + n)]
                   else dec_of_nat (n div 10) @ [of_nat (48 + n mod 10)])"
  by pat_completeness auto
termination
  by (relation "measure id") auto

declare dec_of_nat.simps [simp del]

text \<open>
  The own enumerable properties that an object spread \<^verbatim>\<open>{ ...v }\<close> copies: those of an
  object, the elements of an array and the characters of a string under their
  indices, and none of any other value.
\<close>

fun spread :: "jsvalue \<Rightarrow> (jsstring \<times> jsvalue) list" where
  "spread (JObj kvs) = kvs"
| "spread (JArr xs) = zip (map dec_of_nat [0..<length xs]) xs"
| "spread (JStr s) = zip (map dec_of_nat [0..<length s]) (map (\<lambda>c. JStr [c]) s)"
| "spread _ = []"

text \<open>\<^verbatim>\<open>{ ...v, k1: x1, ..., kn: xn }\<close>: the copied properties, then each key set in turn.\<close>

definition spread_with :: "jsvalue \<Rightarrow> (jsstring \<times> jsvalue) list \<Rightarrow> jsvalue" where
  "spread_with v kxs = JObj (foldl (\<lambda>acc (k, x). AList.update k x acc) (spread v) kxs)"

subsection \<open>\<^verbatim>\<open>JSON.stringify\<close>\<close>

definition hex_char :: "nat \<Rightarrow> jschar" where
  "hex_char n = (if n < 10 then of_nat (48 + n) else of_nat (87 + n))"

definition unicode_escape :: "jschar \<Rightarrow> jsstring" where
  "unicode_escape c =
     [0x5C, 0x75, hex_char (unat c div 4096), hex_char (unat c div 256 mod 16),
      hex_char (unat c div 16 mod 16), hex_char (unat c mod 16)]"

definition is_high_surrogate :: "jschar \<Rightarrow> bool" where
  "is_high_surrogate c \<longleftrightarrow> 0xD800 \<le> c \<and> c \<le> 0xDBFF"

definition is_low_surrogate :: "jschar \<Rightarrow> bool" where
  "is_low_surrogate c \<longleftrightarrow> 0xDC00 \<le> c \<and> c \<le> 0xDFFF"

definition quote_char :: "jschar \<Rightarrow> jsstring" where
  "quote_char c =
     (if c = 0x08 then [0x5C, 0x62]
      else if c = 0x09 then [0x5C, 0x74]
      else if c = 0x0A then [0x5C, 0x6E]
      else if c = 0x0C then [0x5C, 0x66]
      else if c = 0x0D then [0x5C, 0x72]
      else if c = 0x22 then [0x5C, 0x22]
      else if c = 0x5C then [0x5C, 0x5C]
      else if c < 0x20 then unicode_escape c
      else [c])"

text \<open>A surrogate that is not half of a pair is written as an escape.\<close>

fun quote_chars :: "jsstring \<Rightarrow> jsstring" where
  "quote_chars [] = []"
| "quote_chars [c] =
     (if is_high_surrogate c \<or> is_low_surrogate c then unicode_escape c else quote_char c)"
| "quote_chars (c # d # ds) =
     (if is_high_surrogate c then
        (if is_low_surrogate d then c # d # quote_chars ds
         else unicode_escape c @ quote_chars (d # ds))
      else if is_low_surrogate c then unicode_escape c @ quote_chars (d # ds)
      else quote_char c @ quote_chars (d # ds))"

definition QuoteJSONString :: "jsstring \<Rightarrow> jsstring" where
  "QuoteJSONString s = 0x22 # quote_chars s @ [0x22]"

fun join_comma :: "jsstring list \<Rightarrow> jsstring" where
  "join_comma [] = []"
| "join_comma [x] = x"
| "join_comma (x # y # ys) = x @ 0x2C # join_comma (y # ys)"

text \<open>
  The shortest decimal text of a finite non-zero double is the one function of the
  platform that is left open: \<open>nf\<close> stands for it wherever a value is serialised. A
  number whose double is not finite is written \<^verbatim>\<open>null\<close>, and a zero of either sign is
  written \<^verbatim>\<open>0\<close>.
\<close>

type_synonym numfmt = "jsnumber \<Rightarrow> jsstring"

fun JSON_stringify :: "numfmt \<Rightarrow> jsvalue \<Rightarrow> jsstring" where
  "JSON_stringify nf JNull = lit ''null''"
| "JSON_stringify nf (JBool b) = (if b then lit ''true'' else lit ''false'')"
| "JSON_stringify nf (JNum x) =
     (if \<not> isFinite x then lit ''null''
      else if is_zero x then lit ''0'' else nf x)"
| "JSON_stringify nf (JStr s) = QuoteJSONString s"
| "JSON_stringify nf (JArr xs) = 0x5B # join_comma (map (JSON_stringify nf) xs) @ [0x5D]"
| "JSON_stringify nf (JObj kvs) =
     0x7B # join_comma (map (\<lambda>kv. QuoteJSONString (fst kv) @ 0x3A # JSON_stringify nf (snd kv)) kvs)
       @ [0x7D]"

subsection \<open>\<^verbatim>\<open>JSON.parse\<close>\<close>

text \<open>
  \<^verbatim>\<open>JSON.parse\<close> raises a \<^verbatim>\<open>SyntaxError\<close> on a text that is not JSON. The parser below
  descends by a count of steps; \<open>OutOfFuel\<close> is kept apart from the syntax error, and
  the count that \<open>JSON_parse\<close> starts from is shown never to run out.
\<close>

datatype parse_error = SyntaxError | OutOfFuel

definition is_json_ws :: "jschar \<Rightarrow> bool" where
  "is_json_ws c \<longleftrightarrow> c = 0x20 \<or> c = 0x09 \<or> c = 0x0A \<or> c = 0x0D"

definition skip_ws :: "jsstring \<Rightarrow> jsstring" where
  "skip_ws s = dropWhile is_json_ws s"

definition is_hex :: "jschar \<Rightarrow> bool" where
  "is_hex c \<longleftrightarrow> is_digit c \<or> (0x41 \<le> c \<and> c \<le> 0x46) \<or> (0x61 \<le> c \<and> c \<le> 0x66)"

definition hex_val :: "jschar \<Rightarrow> nat" where
  "hex_val c = (if is_digit c then unat c - 48
                else if c \<le> 0x46 then unat c - 55 else unat c - 87)"

definition unescape :: "jschar \<Rightarrow> jschar option" where
  "unescape e =
     (if e = 0x22 then Some 0x22
      else if e = 0x2F then Some 0x2F
      else if e = 0x5C then Some 0x5C
      else if e = 0x62 then Some 0x08
      else if e = 0x66 then Some 0x0C
      else if e = 0x6E then Some 0x0A
      else if e = 0x72 then Some 0x0D
      else if e = 0x74 then Some 0x09
      else None)"

text \<open>The characters of a string after its opening quote, up to the closing one.\<close>

fun parse_chars :: "jsstring \<Rightarrow> (jsstring \<times> jsstring) option" where
  "parse_chars [] = None"
| "parse_chars (c # cs) =
     (if c = 0x22 then Some ([], cs)
      else if c = 0x5C then
        (case cs of
           [] \<Rightarrow> None
         | e # r \<Rightarrow>
             if e = 0x75 then
               (case r of
                  h1 # h2 # h3 # h4 # r' \<Rightarrow>
                    if is_hex h1 \<and> is_hex h2 \<and> is_hex h3 \<and> is_hex h4 then
                      (case parse_chars r' of
                         None \<Rightarrow> None
                       | Some (t, rest) \<Rightarrow>
                           Some (of_nat (hex_val h1 * 4096 + hex_val h2 * 256
                                          + hex_val h3 * 16 + hex_val h4) # t, rest))
                    else None
                | _ \<Rightarrow> None)
             else
               (case unescape e of
                  None \<Rightarrow> None
                | Some d \<Rightarrow>
                    (case parse_chars r of
                       None \<Rightarrow> None
                     | Some (t, rest) \<Rightarrow> Some (d # t, rest))))
      else if c < 0x20 then None
      else (case parse_chars cs of
              None \<Rightarrow> None
            | Some (t, rest) \<Rightarrow> Some (c # t, rest)))"

text \<open>
  A JSON number: an optional minus, an integer part without a leading zero, an
  optional fraction with at least one digit, an optional exponent part. Its value is
  the double of the literal, so \<^verbatim>\<open>-0\<close> reads as the negative zero.
\<close>

definition json_fraction :: "jsstring \<Rightarrow> (jsstring \<times> jsstring) option" where
  "json_fraction s =
     (case s of
        [] \<Rightarrow> Some ([], s)
      | c # r \<Rightarrow>
          if c = 0x2E then
            (if takeWhile is_digit r = [] then None
             else Some (takeWhile is_digit r, dropWhile is_digit r))
          else Some ([], s))"

definition json_exponent :: "jsstring \<Rightarrow> (int \<times> jsstring) option" where
  "json_exponent s =
     (case s of
        [] \<Rightarrow> Some (0, s)
      | c # r \<Rightarrow> if c = 0x65 \<or> c = 0x45 then exponent_part s else Some (0, s))"

definition json_number :: "jsstring \<Rightarrow> (jsnumber \<times> jsstring) option" where
  "json_number s =
     (let (neg, u) = (case s of
                        [] \<Rightarrow> (False, s)
                      | c # r \<Rightarrow> if c = 0x2D then (True, r) else (False, s));
          ip = takeWhile is_digit u
      in if ip = [] \<or> (hd ip = 0x30 \<and> 1 < length ip) then None
         else
           (case json_fraction (dropWhile is_digit u) of
              None \<Rightarrow> None
            | Some (fp, r2) \<Rightarrow>
                (case json_exponent r2 of
                   None \<Rightarrow> None
                 | Some (e, r3) \<Rightarrow>
                     Some (to_double neg (scale10 (digits_val (ip @ fp)) (e - int (length fp))),
                           r3))))"

text \<open>A later member with the key of an earlier one replaces its value in place.\<close>

definition obj_of_members :: "(jsstring \<times> jsvalue) list \<Rightarrow> jsvalue" where
  "obj_of_members ms = JObj (foldl (\<lambda>acc (k, v). AList.update k v acc) [] ms)"

type_synonym 'a parsed = "parse_error + ('a \<times> jsstring)"

fun parse_value :: "nat \<Rightarrow> jsstring \<Rightarrow> jsvalue parsed"
  and parse_elements :: "nat \<Rightarrow> jsstring \<Rightarrow> (jsvalue list) parsed"
  and parse_members :: "nat \<Rightarrow> jsstring \<Rightarrow> ((jsstring \<times> jsvalue) list) parsed"
where
  "parse_value 0 s = Inl OutOfFuel"
| "parse_value (Suc n) s =
     (case skip_ws s of
        [] \<Rightarrow> Inl SyntaxError
      | c # cs \<Rightarrow>
          if c = 0x5B then
            (case skip_ws cs of
               [] \<Rightarrow> Inl SyntaxError
             | d # ds \<Rightarrow>
                 if d = 0x5D then Inr (JArr [], ds)
                 else (case parse_elements n cs of
                         Inl e \<Rightarrow> Inl e
                       | Inr (xs, rest) \<Rightarrow> Inr (JArr xs, rest)))
          else if c = 0x7B then
            (case skip_ws cs of
               [] \<Rightarrow> Inl SyntaxError
             | d # ds \<Rightarrow>
                 if d = 0x7D then Inr (JObj [], ds)
                 else (case parse_members n cs of
                         Inl e \<Rightarrow> Inl e
                       | Inr (ms, rest) \<Rightarrow> Inr (obj_of_members ms, rest)))
          else if c = 0x22 then
            (case parse_chars cs of
               None \<Rightarrow> Inl SyntaxError
             | Some (t, rest) \<Rightarrow> Inr (JStr t, rest))
          else if take 4 (c # cs) = lit ''null'' then Inr (JNull, drop 4 (c # cs))
          else if take 4 (c # cs) = lit ''true'' then Inr (JBool True, drop 4 (c # cs))
          else if take 5 (c # cs) = lit ''false'' then Inr (JBool False, drop 5 (c # cs))
          else (case json_number (c # cs) of
                  None \<Rightarrow> Inl SyntaxError
                | Some (x, rest) \<Rightarrow> Inr (JNum x, rest)))"
| "parse_elements 0 s = Inl OutOfFuel"
| "parse_elements (Suc n) s =
     (case parse_value n s of
        Inl e \<Rightarrow> Inl e
      | Inr (v, r) \<Rightarrow>
          (case skip_ws r of
             [] \<Rightarrow> Inl SyntaxError
           | c # cs \<Rightarrow>
               if c = 0x2C then
                 (case parse_elements n cs of
                    Inl e \<Rightarrow> Inl e
                  | Inr (vs, rest) \<Rightarrow> Inr (v # vs, rest))
               else if c = 0x5D then Inr ([v], cs)
               else Inl SyntaxError))"
| "parse_members 0 s = Inl OutOfFuel"
| "parse_members (Suc n) s =
     (case skip_ws s of
        [] \<Rightarrow> Inl SyntaxError
      | q # qs \<Rightarrow>
          if q = 0x22 then
            (case parse_chars qs of
               None \<Rightarrow> Inl SyntaxError
             | Some (k, r) \<Rightarrow>
                 (case skip_ws r of
                    [] \<Rightarrow> Inl SyntaxError
                  | d # ds \<Rightarrow>
                      if d = 0x3A then
                        (case parse_value n ds of
                           Inl e \<Rightarrow> Inl e
                         | Inr (v, r2) \<Rightarrow>
                             (case skip_ws r2 of
                                [] \<Rightarrow> Inl SyntaxError
                              | c # cs \<Rightarrow>
                                  if c = 0x2C then
                                    (case parse_members n cs of
                                       Inl e \<Rightarrow> Inl e
                                     | Inr (ms, rest) \<Rightarrow> Inr ((k, v) # ms, rest))
                                  else if c = 0x7D then Inr ([(k, v)], cs)
                                  else Inl SyntaxError))
                      else Inl SyntaxError))
          else Inl SyntaxError)"

text \<open>\<^verbatim>\<open>JSON.parse(text)\<close>: one value, with nothing but white space after it.\<close>

definition JSON_parse :: "jsstring \<Rightarrow> parse_error + jsvalue" where
  "JSON_parse s =
     (case parse_value (2 * length s + 1) s of
        Inl e \<Rightarrow> Inl e
      | Inr (v, rest) \<Rightarrow> if skip_ws rest = [] then Inr v else Inl SyntaxError)"

section \<open>The wizard state store\<close>

text \<open>
  \<^verbatim>\<open>localStorage\<close> under the key \<^verbatim>\<open>productTrackingForm\<close>: the stored text, or \<open>None\<close> when
  the key is absent (\<^verbatim>\<open>getItem\<close> then gives \<^verbatim>\<open>null\<close>, which \<^verbatim>\<open>JSON.parse\<close> reads as the
  text \<^verbatim>\<open>null\<close>).
\<close>

type_synonym storage = "jsstring option"

text \<open>The body of the \<^verbatim>\<open>try\<close> block of \<^verbatim>\<open>getStoredData\<close>: it returns a value or raises.\<close>

definition getStoredData_try :: "storage \<Rightarrow> parse_error + jsvalue" where
  "getStoredData_try ls =
     (case JSON_parse (case ls of None \<Rightarrow> lit ''null'' | Some s \<Rightarrow> s) of
        Inl e \<Rightarrow> Inl e
      | Inr v \<Rightarrow> Inr (if truthy v then v else JObj []))"

text \<open>
  \<^verbatim>\<open>
  function getStoredData() {
      try {
          return JSON.parse(localStorage.getItem(STORAGE_KEY)) || {};
      } catch (error) {
          return {};
      }
  }
  \<close>
\<close>

definition getStoredData :: "storage \<Rightarrow> jsvalue" where
  "getStoredData ls = (case getStoredData_try ls of Inl e \<Rightarrow> JObj [] | Inr v \<Rightarrow> v)"

definition setStoredData :: "numfmt \<Rightarrow> jsvalue \<Rightarrow> storage \<Rightarrow> storage" where
  "setStoredData nf data ls = Some (JSON_stringify nf data)"

definition clearStoredData :: "storage \<Rightarrow> storage" where
  "clearStoredData ls = None"

section \<open>Step 1: the form page\<close>

text \<open>\<^verbatim>\<open>function setMessage(element, message) { if (element) { element.textContent = message; } }\<close>:
  the text of a message element, \<open>None\<close> when the page has no such element.\<close>

definition setMessage :: "string option \<Rightarrow> string \<Rightarrow> string option" where
  "setMessage element message = (case element of None \<Rightarrow> None | Some _ \<Rightarrow> Some message)"

text \<open>
  A chip-type button: its \<^verbatim>\<open>data-chip-type\<close> attribute (\<open>None\<close> when absent) and whether
  its \<^verbatim>\<open>aria-pressed\<close> attribute is \<^verbatim>\<open>"true"\<close>.
\<close>

record chip_button =
  data_chip_type :: "jsstring option"
  aria_pressed :: bool

datatype control =
    ChipTypeButton0 | ChipBoxInput | ChipBulkInput | ChipPurchasedSelect
  | ProductSelect | NetWeightInput | OperatorInput | BoxInput

text \<open>
  The form page while its handlers run: the buttons, the \<^verbatim>\<open>value\<close> of each input, the
  text of \<^verbatim>\<open>#form-error\<close>, the control that has the focus, and \<^verbatim>\<open>stored\<close>, the record
  that \<^verbatim>\<open>initFormPage\<close> read when the page was set up and that the submit handler closes
  over. Which fields are visible is rendering and is not kept.
\<close>

record form_page =
  chipTypeButtons :: "chip_button list"
  chipBoxInput :: jsstring
  chipBulkInput :: jsstring
  chipPurchasedSelect :: jsstring
  productSelect :: jsstring
  netWeightInput :: jsstring
  operatorInput :: jsstring
  errorElement :: "string option"
  focused :: "control option"
  stored :: jsvalue

definition getSelectedChipType :: "chip_button list \<Rightarrow> jsstring" where
  "getSelectedChipType buttons =
     (case find aria_pressed buttons of
        None \<Rightarrow> []
      | Some selected \<Rightarrow> (case data_chip_type selected of None \<Rightarrow> [] | Some t \<Rightarrow> t))"

definition setSelectedChipType :: "jsstring \<Rightarrow> form_page \<Rightarrow> form_page" where
  "setSelectedChipType type pg =
     pg\<lparr>chipTypeButtons :=
          map (\<lambda>button. button\<lparr>aria_pressed := (data_chip_type button = Some type)\<rparr>)
            (chipTypeButtons pg),
        focused :=
          (if type = lit ''box'' then Some ChipBoxInput
           else if type = lit ''bulk'' then Some ChipBulkInput
           else if type = lit ''purchased'' then Some ChipPurchasedSelect
           else focused pg)\<rparr>"

text \<open>
  \<^verbatim>\<open>initFormPage\<close> as far as the state goes: it returns without attaching a handler when
  the page has no chip-type button; otherwise it reads the stored record and starts
  with no chip type selected. The values it then copies into the inputs are not
  modelled: the handlers below are stated for whatever the inputs hold.
\<close>

definition initFormPage :: "form_page \<Rightarrow> storage \<Rightarrow> form_page option" where
  "initFormPage html ls =
     (if chipTypeButtons html = [] then None
      else Some (setSelectedChipType [] (html\<lparr>stored := getStoredData ls\<rparr>)))"

text \<open>
  The click handler of a chip-type button:
  \<^verbatim>\<open>
  const type = button.dataset.chipType;
  if (!type) { return; }
  setSelectedChipType(type);
  const stored = getStoredData();
  setStoredData({ ...stored, chipType: type });
  \<close>
\<close>

definition chip_click :: "numfmt \<Rightarrow> chip_button \<Rightarrow> form_page \<times> storage \<Rightarrow> form_page \<times> storage" where
  "chip_click nf button st =
     (case data_chip_type button of
        None \<Rightarrow> st
      | Some type \<Rightarrow>
          if type = [] then st
          else (setSelectedChipType type (fst st),
                setStoredData nf
                  (spread_with (getStoredData (snd st)) [(lit ''chipType'', JStr type)])
                  (snd st)))"

text \<open>The outcome of the checks of a submit handler: the message shown and the control
  focused, or the record to store.\<close>

datatype validation = Invalid string control | Valid jsvalue

text \<open>The chip-type branch of the submit handler, which sets \<^verbatim>\<open>boxNumber\<close> or returns early.\<close>

definition chip_boxNumber ::
  "jsstring \<Rightarrow> jsstring \<Rightarrow> jsstring \<Rightarrow> jsstring \<Rightarrow> (string \<times> control) + jsstring" where
  "chip_boxNumber chipType chipBoxNumber chipBulkSilo chipPurchased =
     (if chipType = lit ''box'' then
        (if chipBoxNumber = [] then Inl (''Please enter a box number.'', ChipBoxInput)
         else if \<not> re_alnum_test chipBoxNumber
         then Inl (''Box number must be alphanumeric only.'', ChipBoxInput)
         else Inr chipBoxNumber)
      else if chipType = lit ''bulk'' then
        (if chipBulkSilo = [] then Inl (''Please enter a bulk/silo value.'', ChipBulkInput)
         else if re_digit_test chipBulkSilo
         then Inl (''Bulk/Silo must not contain numbers.'', ChipBulkInput)
         else Inr chipBulkSilo)
      else if chipType = lit ''purchased'' then
        (if chipPurchased = []
         then Inl (''Please select a purchased chip option.'', ChipPurchasedSelect)
         else Inr chipPurchased)
      else Inl (''Please select what type of chip this is.'', ChipTypeButton0))"

text \<open>The checks of the submit handler of the form page, in the order of the source.\<close>

definition form_validate :: "form_page \<Rightarrow> validation" where
  "form_validate pg =
     (let chipType = getSelectedChipType (chipTypeButtons pg);
          chipBoxNumber = normalizeText (chipBoxInput pg);
          chipBulkSilo = normalizeText (chipBulkInput pg);
          chipPurchased = chipPurchasedSelect pg;
          product = productSelect pg;
          netWeight = normalizeText (netWeightInput pg);
          netWeightValue = parseFloat netWeight;
          operatorName = normalizeText (operatorInput pg);
          operatorParts = operatorParts_of operatorName
      in if chipType = []
         then Invalid ''Please select what type of chip this is.'' ChipTypeButton0
         else
           (case chip_boxNumber chipType chipBoxNumber chipBulkSilo chipPurchased of
              Inl (message, c) \<Rightarrow> Invalid message c
            | Inr boxNumber \<Rightarrow>
                if product = [] then Invalid ''Please select a product.'' ProductSelect
                else if netWeight = []
                then Invalid ''Please enter a net weight.'' NetWeightInput
                else if \<not> isFinite netWeightValue \<or> le_zero netWeightValue
                then Invalid ''Net weight must be a positive number.'' NetWeightInput
                else if length operatorParts < 2
                then Invalid ''Please enter first and last name.'' OperatorInput
                else Valid (spread_with (stored pg)
                       [(lit ''chipType'', JStr chipType),
                        (lit ''chipBoxNumber'', JStr chipBoxNumber),
                        (lit ''chipBulkSilo'', JStr chipBulkSilo),
                        (lit ''chipPurchased'', JStr chipPurchased),
                        (lit ''boxNumber'', JStr boxNumber),
                        (lit ''product'', JStr product),
                        (lit ''netWeight'', JStr netWeight),
                        (lit ''operatorName'', JStr operatorName)])))"

text \<open>
  What a handler leaves behind: the page, the storage and the page that
  \<^verbatim>\<open>window.location.href\<close> was set to, if any.
\<close>

record 'p outcome =
  page_of :: 'p
  storage_of :: storage
  navigated :: "string option"

text \<open>
  The submit handler of the form page: the message is cleared, the checks run, and
  either one message is shown and its control focused, or the record is stored and the
  browser goes to the destination page.
\<close>

definition form_submit :: "numfmt \<Rightarrow> form_page \<Rightarrow> storage \<Rightarrow> form_page outcome" where
  "form_submit nf pg ls =
     (case form_validate pg of
        Invalid message c \<Rightarrow>
          \<lparr>page_of = pg\<lparr>errorElement := setMessage (setMessage (errorElement pg) []) message,
                          focused := Some c\<rparr>,
           storage_of = ls, navigated = None\<rparr>
      | Valid r \<Rightarrow>
          \<lparr>page_of = pg\<lparr>errorElement := setMessage (errorElement pg) []\<rparr>,
           storage_of = setStoredData nf r ls, navigated = Some ''destination.html''\<rparr>)"

subsection \<open>The form page of \<^verbatim>\<open>app.js\<close>\<close>

text \<open>The second copy of the script has one box-number input and no chip types.\<close>

record app_form_page =
  boxInput :: jsstring
  app_productSelect :: jsstring
  app_netWeightInput :: jsstring
  app_operatorInput :: jsstring
  app_errorElement :: "string option"
  app_focused :: "control option"
  app_stored :: jsvalue

definition app_form_validate :: "app_form_page \<Rightarrow> validation" where
  "app_form_validate pg =
     (let boxNumber = normalizeText (boxInput pg);
          product = app_productSelect pg;
          netWeight = normalizeText (app_netWeightInput pg);
          netWeightValue = parseFloat netWeight;
          operatorName = normalizeText (app_operatorInput pg);
          operatorParts = operatorParts_of operatorName
      in if boxNumber = [] then Invalid ''Please enter a box number.'' BoxInput
         else if \<not> re_alnum_test boxNumber
         then Invalid ''Box number must be alphanumeric only.'' BoxInput
         else if product = [] then Invalid ''Please select a product.'' ProductSelect
         else if netWeight = [] then Invalid ''Please enter a net weight.'' NetWeightInput
         else if \<not> isFinite netWeightValue \<or> le_zero netWeightValue
         then Invalid ''Net weight must be a positive number.'' NetWeightInput
         else if length operatorParts < 2
         then Invalid ''Please enter first and last name.'' OperatorInput
         else Valid (spread_with (app_stored pg)
                [(lit ''boxNumber'', JStr boxNumber),
                 (lit ''product'', JStr product),
                 (lit ''netWeight'', JStr netWeight),
                 (lit ''operatorName'', JStr operatorName)]))"

definition app_form_submit :: "numfmt \<Rightarrow> app_form_page \<Rightarrow> storage \<Rightarrow> app_form_page outcome" where
  "app_form_submit nf pg ls =
     (case app_form_validate pg of
        Invalid message c \<Rightarrow>
          \<lparr>page_of = pg\<lparr>app_errorElement :=
                            setMessage (setMessage (app_errorElement pg) []) message,
                          app_focused := Some c\<rparr>,
           storage_of = ls, navigated = None\<rparr>
      | Valid r \<Rightarrow>
          \<lparr>page_of = pg\<lparr>app_errorElement := setMessage (app_errorElement pg) []\<rparr>,
           storage_of = setStoredData nf r ls, navigated = Some ''destination.html''\<rparr>)"

section \<open>Step 2: the destination page\<close>

text \<open>What entering a page does: a redirect before anything is shown, a return without
  handlers because the page lacks its elements, or the page set up.\<close>

datatype 'p entered = Redirected string | NotWired | Rendered 'p

text \<open>The guard that both later pages start with: some step-1 field is missing or falsy.\<close>

definition step1_incomplete :: "jsvalue \<Rightarrow> bool" where
  "step1_incomplete stored_rec \<longleftrightarrow>
     \<not> truthy_opt (get_prop stored_rec (lit ''boxNumber'')) \<or>
     \<not> truthy_opt (get_prop stored_rec (lit ''product'')) \<or>
     \<not> truthy_opt (get_prop stored_rec (lit ''netWeight'')) \<or>
     \<not> truthy_opt (get_prop stored_rec (lit ''operatorName''))"

record checkbox =
  cb_value :: jsstring
  cb_checked :: bool

record destination_page =
  checkboxes :: "checkbox list"
  dest_errorElement :: "string option"
  dest_stored :: jsvalue

text \<open>\<^verbatim>\<open>const saved = checkboxes.find((box) => box.value === stored.destination);
  if (saved) { saved.checked = true; }\<close>\<close>

fun check_saved :: "jsvalue \<Rightarrow> checkbox list \<Rightarrow> checkbox list" where
  "check_saved d [] = []"
| "check_saved d (box # boxes) =
     (if JStr (cb_value box) = d then box\<lparr>cb_checked := True\<rparr> # boxes
      else box # check_saved d boxes)"

definition initDestinationPage :: "destination_page \<Rightarrow> storage \<Rightarrow> destination_page entered" where
  "initDestinationPage html ls =
     (let stored_rec = getStoredData ls
      in if step1_incomplete stored_rec then Redirected ''index.html''
         else if checkboxes html = [] then NotWired
         else Rendered
           (html\<lparr>checkboxes :=
                  (case get_prop stored_rec (lit ''destination'') of
                     None \<Rightarrow> checkboxes html
                   | Some d \<Rightarrow> if truthy d then check_saved d (checkboxes html)
                               else checkboxes html),
                dest_stored := stored_rec\<rparr>))"

definition destination_submit ::
  "numfmt \<Rightarrow> destination_page \<Rightarrow> storage \<Rightarrow> destination_page outcome" where
  "destination_submit nf pg ls =
     (case find cb_checked (checkboxes pg) of
        None \<Rightarrow>
          \<lparr>page_of = pg\<lparr>dest_errorElement :=
                            setMessage (setMessage (dest_errorElement pg) [])
                              ''Please select a chip destination.''\<rparr>,
           storage_of = ls, navigated = None\<rparr>
      | Some selected \<Rightarrow>
          \<lparr>page_of = pg\<lparr>dest_errorElement := setMessage (dest_errorElement pg) []\<rparr>,
           storage_of =
             setStoredData nf
               (spread_with (dest_stored pg) [(lit ''destination'', JStr (cb_value selected))]) ls,
           navigated = Some ''summary.html''\<rparr>)"

section \<open>Step 3: the summary page\<close>

text \<open>
  The summary page and what its handlers act on: \<^verbatim>\<open>stored\<close> as read on entry, the
  \<^verbatim>\<open>disabled\<close> flag of the save button, the text of \<^verbatim>\<open>#save-message\<close>, the delay of the
  armed redirect timer, the number of \<^verbatim>\<open>fetch\<close> calls that have not settled, the bodies
  of the requests sent, the alerts shown, the storage and the page the browser is on.
\<close>

record summary_state =
  sum_stored :: jsvalue
  saveButton_disabled :: bool
  save_message :: "string option"
  redirectTimer :: "nat option"
  pending :: nat
  requests :: "jsstring list"
  alerts :: "string list"
  sum_storage :: storage
  location :: string

text \<open>
  \<^verbatim>\<open>initSummaryPage\<close> up to the point where the handlers are attached; the page is taken
  to have its save button, enabled, and \<open>message_el\<close> is its \<^verbatim>\<open>#save-message\<close> element.
\<close>

definition initSummaryPage :: "string option \<Rightarrow> storage \<Rightarrow> summary_state entered" where
  "initSummaryPage message_el ls =
     (let stored_rec = getStoredData ls
      in if step1_incomplete stored_rec then Redirected ''index.html''
         else if \<not> truthy_opt (get_prop stored_rec (lit ''destination''))
         then Redirected ''destination.html''
         else Rendered
           \<lparr>sum_stored = stored_rec, saveButton_disabled = False, save_message = message_el,
            redirectTimer = None, pending = 0, requests = [], alerts = [],
            sum_storage = ls, location = ''summary.html''\<rparr>)"

text \<open>The properties of an object literal whose value is not \<^verbatim>\<open>undefined\<close>; \<^verbatim>\<open>JSON.stringify\<close>
  leaves the others out.\<close>

definition pick_props :: "jsvalue \<Rightarrow> jsstring list \<Rightarrow> (jsstring \<times> jsvalue) list" where
  "pick_props v ks =
     concat (map (\<lambda>k. case get_prop v k of None \<Rightarrow> [] | Some x \<Rightarrow> [(k, x)]) ks)"

definition save_request_body :: "numfmt \<Rightarrow> jsvalue \<Rightarrow> jsstring" where
  "save_request_body nf stored_rec =
     JSON_stringify nf
       (JObj (pick_props stored_rec
                [lit ''boxNumber'', lit ''product'', lit ''netWeight'',
                 lit ''operatorName'', lit ''destination'']))"

text \<open>The click handler of the save button, up to its \<^verbatim>\<open>await fetch(...)\<close>.\<close>

definition click_save :: "numfmt \<Rightarrow> summary_state \<Rightarrow> summary_state" where
  "click_save nf s =
     (if saveButton_disabled s then s
      else s\<lparr>saveButton_disabled := True,
             save_message := setMessage (save_message s) [],
             pending := Suc (pending s),
             requests := requests s @ [save_request_body nf (sum_stored s)]\<rparr>)"

text \<open>
  How a \<^verbatim>\<open>fetch\<close> settles: with a response whose \<^verbatim>\<open>ok\<close> is true, with any other response,
  or by rejecting (the request did not get through).
\<close>

datatype fetch_result = ResponseOk | ResponseNotOk | FetchRejected

text \<open>
  The rest of the click handler, run when the \<^verbatim>\<open>fetch\<close> settles; \<open>isoString\<close> and \<open>shown\<close> are
  \<^verbatim>\<open>savedAt.toISOString()\<close> and \<^verbatim>\<open>formatDateTime(savedAt)\<close> of the time at that moment.
  The \<^verbatim>\<open>catch\<close> block alerts, and the \<^verbatim>\<open>finally\<close> block enables the button again
  unless the success path has set \<^verbatim>\<open>shouldUnlock\<close> to false.
\<close>

definition fetch_settled ::
  "numfmt \<Rightarrow> fetch_result \<Rightarrow> jsstring \<Rightarrow> string \<Rightarrow> summary_state \<Rightarrow> summary_state" where
  "fetch_settled nf r isoString shown s =
     (case r of
        ResponseOk \<Rightarrow>
          s\<lparr>pending := pending s - 1,
            alerts := alerts s @ [''Saved to Excel.''],
            sum_storage :=
              setStoredData nf (spread_with (sum_stored s) [(lit ''savedAt'', JStr isoString)])
                (sum_storage s),
            save_message :=
              setMessage (save_message s)
                (''Saved at '' @ shown @ ''. Redirecting to the first page in 3 seconds.''),
            redirectTimer := Some 3000\<rparr>
      | _ \<Rightarrow>
          s\<lparr>pending := pending s - 1,
            alerts := alerts s @ [''Save failed. Please try again.''],
            saveButton_disabled := False\<rparr>)"

text \<open>The callback of the redirect timer, and the click handler of the back button.\<close>

definition timer_fired :: "summary_state \<Rightarrow> summary_state" where
  "timer_fired s =
     s\<lparr>sum_storage := clearStoredData (sum_storage s), location := ''index.html'',
       redirectTimer := None\<rparr>"

definition click_back :: "summary_state \<Rightarrow> summary_state" where
  "click_back s = s\<lparr>location := ''destination.html''\<rparr>"

datatype summary_event =
    ClickSave
  | FetchSettled fetch_result jsstring string
  | TimerFired
  | ClickBack

text \<open>
  One event on the summary page. Once the browser has left the page nothing of it
  runs any more; a \<^verbatim>\<open>fetch\<close> can settle only while one is pending, and the timer can
  fire only while it is armed.
\<close>

fun summary_step :: "numfmt \<Rightarrow> summary_state \<Rightarrow> summary_event \<Rightarrow> summary_state" where
  "summary_step nf s e =
     (if location s \<noteq> ''summary.html'' then s
      else case e of
             ClickSave \<Rightarrow> click_save nf s
           | FetchSettled r isoString shown \<Rightarrow>
               if pending s = 0 then s else fetch_settled nf r isoString shown s
           | TimerFired \<Rightarrow> if redirectTimer s = None then s else timer_fired s
           | ClickBack \<Rightarrow> click_back s)"

definition summary_run :: "numfmt \<Rightarrow> summary_state \<Rightarrow> summary_event list \<Rightarrow> summary_state" where
  "summary_run nf s es = foldl (summary_step nf) s es"

section \<open>The server: \<^verbatim>\<open>POST /save\<close>\<close>




















section \<open>The step-1 rules as the specification lists them\<close>

text \<open>
  The rules of the step-1 validator in the order of the specification, each with
  whether the page passes it; the first one that fails is the error reported.
\<close>

datatype rule =
    ChipTypeKnown | VariantPresent | VariantClass | ProductPresent
  | WeightPresent | WeightPositive | OperatorTwoTokens

definition spec_variant_value :: "form_page \<Rightarrow> jsstring" where
  "spec_variant_value pg =
     (let t = getSelectedChipType (chipTypeButtons pg)
      in if t = lit ''box'' then trim (chipBoxInput pg)
         else if t = lit ''bulk'' then trim (chipBulkInput pg)
         else chipPurchasedSelect pg)"

definition spec_variant_class :: "form_page \<Rightarrow> bool" where
  "spec_variant_class pg =
     (let t = getSelectedChipType (chipTypeButtons pg)
      in if t = lit ''box'' then list_all is_alnum (spec_variant_value pg)
         else if t = lit ''bulk'' then \<not> list_ex is_digit (spec_variant_value pg)
         else True)"

definition spec_step1_rules :: "form_page \<Rightarrow> (rule \<times> bool) list" where
  "spec_step1_rules pg =
     [(ChipTypeKnown,
         getSelectedChipType (chipTypeButtons pg) \<in> {lit ''box'', lit ''bulk'', lit ''purchased''}),
      (VariantPresent, spec_variant_value pg \<noteq> []),
      (VariantClass, spec_variant_class pg),
      (ProductPresent, productSelect pg \<noteq> []),
      (WeightPresent, trim (netWeightInput pg) \<noteq> []),
      (WeightPositive,
         isFinite (parseFloat (trim (netWeightInput pg))) \<and>
         \<not> le_zero (parseFloat (trim (netWeightInput pg)))),
      (OperatorTwoTokens, 2 \<le> length (operatorParts_of (trim (operatorInput pg))))]"

definition spec_first_failure :: "form_page \<Rightarrow> rule option" where
  "spec_first_failure pg = map_option fst (find (\<lambda>rb. \<not> snd rb) (spec_step1_rules pg))"

text \<open>The message and the control of the source for a failed rule, given the chip type.\<close>

definition rule_error :: "jsstring \<Rightarrow> rule \<Rightarrow> validation" where
  "rule_error t r =
     (case r of
        ChipTypeKnown \<Rightarrow> Invalid ''Please select what type of chip this is.'' ChipTypeButton0
      | VariantPresent \<Rightarrow>
          if t = lit ''box'' then Invalid ''Please enter a box number.'' ChipBoxInput
          else if t = lit ''bulk'' then Invalid ''Please enter a bulk/silo value.'' ChipBulkInput
          else Invalid ''Please select a purchased chip option.'' ChipPurchasedSelect
      | VariantClass \<Rightarrow>
          if t = lit ''box'' then Invalid ''Box number must be alphanumeric only.'' ChipBoxInput
          else Invalid ''Bulk/Silo must not contain numbers.'' ChipBulkInput
      | ProductPresent \<Rightarrow> Invalid ''Please select a product.'' ProductSelect
      | WeightPresent \<Rightarrow> Invalid ''Please enter a net weight.'' NetWeightInput
      | WeightPositive \<Rightarrow> Invalid ''Net weight must be a positive number.'' NetWeightInput
      | OperatorTwoTokens \<Rightarrow> Invalid ''Please enter first and last name.'' OperatorInput)"

text \<open>The fields that a successful step 1 sets, with the values the specification names.\<close>

definition spec_step1_fields :: "form_page \<Rightarrow> (jsstring \<times> jsvalue) list" where
  "spec_step1_fields pg =
     [(lit ''chipType'', JStr (getSelectedChipType (chipTypeButtons pg))),
      (lit ''chipBoxNumber'', JStr (trim (chipBoxInput pg))),
      (lit ''chipBulkSilo'', JStr (trim (chipBulkInput pg))),
      (lit ''chipPurchased'', JStr (chipPurchasedSelect pg)),
      (lit ''boxNumber'', JStr (spec_variant_value pg)),
      (lit ''product'', JStr (productSelect pg)),
      (lit ''netWeight'', JStr (trim (netWeightInput pg))),
      (lit ''operatorName'', JStr (trim (operatorInput pg)))]"

section \<open>Values that survive serialisation\<close>

text \<open>The numbers in a value, at any depth.\<close>

fun numbers :: "jsvalue \<Rightarrow> jsnumber list" where
  "numbers (JNum x) = [x]"
| "numbers (JArr xs) = concat (map numbers xs)"
| "numbers (JObj kvs) = concat (map (\<lambda>kv. numbers (snd kv)) kvs)"
| "numbers _ = []"

text \<open>
  What \<^verbatim>\<open>Number::toString\<close> guarantees of the text it gives for a double: the text is a
  number literal whose value, rounded, is that double.
\<close>

definition reads_back :: "numfmt \<Rightarrow> jsnumber \<Rightarrow> bool" where
  "reads_back nf x \<longleftrightarrow> json_number (nf x) = Some (x, [])"

text \<open>A number whose double is zero is held as the zero itself.\<close>

fun canonical :: "jsnumber \<Rightarrow> bool" where
  "canonical (Finite _ q) = (rounds_to_zero q \<longrightarrow> q = 0)"
| "canonical _ = True"

text \<open>A text that cannot continue a number literal: it is empty, or it starts with a
  comma or a closing bracket.\<close>

definition delimiter :: "jsstring \<Rightarrow> bool" where
  "delimiter r \<longleftrightarrow> r = [] \<or> hd r = 0x2C \<or> hd r = 0x5D \<or> hd r = 0x7D"

text \<open>A property of every number in a value.\<close>

fun all_numbers :: "(jsnumber \<Rightarrow> bool) \<Rightarrow> jsvalue \<Rightarrow> bool" where
  "all_numbers P (JNum x) = P x"
| "all_numbers P (JArr xs) = (\<forall>x\<in>set xs. all_numbers P x)"
| "all_numbers P (JObj kvs) = (\<forall>kv\<in>set kvs. all_numbers P (snd kv))"
| "all_numbers P _ = True"

text \<open>
  A number that \<^verbatim>\<open>JSON.stringify\<close> writes as a text that reads back as the number, or as
  the positive zero for a zero.
\<close>

definition stable :: "numfmt \<Rightarrow> jsnumber \<Rightarrow> bool" where
  "stable nf x \<longleftrightarrow> isFinite x \<and> canonical x \<and> (\<not> is_zero x \<longrightarrow> reads_back nf x)"

text \<open>A value with each negative zero in it replaced by the positive zero.\<close>

fun pos_zero :: "jsnumber \<Rightarrow> jsnumber" where
  "pos_zero (Finite neg q) = Finite (neg \<and> q \<noteq> 0) q"
| "pos_zero x = x"

fun positive_zeros :: "jsvalue \<Rightarrow> jsvalue" where
  "positive_zeros (JNum x) = JNum (pos_zero x)"
| "positive_zeros (JArr xs) = JArr (map positive_zeros xs)"
| "positive_zeros (JObj kvs) = JObj (map (\<lambda>kv. (fst kv, positive_zeros (snd kv))) kvs)"
| "positive_zeros v = v"

text \<open>A value whose objects, at any depth, have no key twice.\<close>

fun distinct_keys :: "jsvalue \<Rightarrow> bool" where
  "distinct_keys (JArr xs) = (\<forall>x\<in>set xs. distinct_keys x)"
| "distinct_keys (JObj kvs) =
     (distinct (map fst kvs) \<and> (\<forall>kv\<in>set kvs. distinct_keys (snd kv)))"
| "distinct_keys _ = True"

text \<open>A count of steps that is enough for the parser to read a value back.\<close>

fun parse_depth :: "jsvalue \<Rightarrow> nat" where
  "parse_depth (JArr xs) = Suc (sum_list (map (\<lambda>x. Suc (parse_depth x)) xs))"
| "parse_depth (JObj kvs) = Suc (sum_list (map (\<lambda>kv. Suc (parse_depth (snd kv))) kvs))"
| "parse_depth _ = 1"

text \<open>The characters that the text of a value can start with.\<close>

definition value_start :: "jschar \<Rightarrow> bool" where
  "value_start c \<longleftrightarrow>
     c = 0x6E \<or> c = 0x74 \<or> c = 0x66 \<or> c = 0x22 \<or> c = 0x5B \<or> c = 0x7B \<or> c = 0x2D \<or> is_digit c"

section \<open>The guard on the save button\<close>

text \<open>
  What holds of the summary page after any events: at most one \<^verbatim>\<open>fetch\<close> is pending;
  while one is pending the button is disabled and no redirect timer is armed; while a
  timer is armed the button is disabled; a timer is armed only after the alert of a
  successful save; and the storage is not empty unless that timer has fired.
\<close>

definition submit_guard :: "summary_state \<Rightarrow> bool" where
  "submit_guard s \<longleftrightarrow>
     pending s \<le> 1 \<and>
     (pending s = 1 \<longrightarrow> saveButton_disabled s \<and> redirectTimer s = None) \<and>
     (redirectTimer s \<noteq> None \<longrightarrow> saveButton_disabled s) \<and>
     (redirectTimer s \<noteq> None \<longrightarrow> ''Saved to Excel.'' \<in> set (alerts s)) \<and>
     (sum_storage s = None \<longrightarrow> ''Saved to Excel.'' \<in> set (alerts s))"

section \<open>Sample inputs\<close>

definition step1_record_json :: jsstring where
  \<open>step1_record_json =
     lit ''{"boxNumber":"A1B2","product":"Resin-X","netWeight":"12.5","operatorName":"Jane Doe"}''\<close>

definition step1_record :: jsvalue where
  "step1_record =
     JObj [(lit ''boxNumber'', JStr (lit ''A1B2'')), (lit ''product'', JStr (lit ''Resin-X'')),
           (lit ''netWeight'', JStr (lit ''12.5'')), (lit ''operatorName'', JStr (lit ''Jane Doe''))]"

definition no_checkboxes :: destination_page where
  "no_checkboxes = \<lparr>checkboxes = [], dest_errorElement = None, dest_stored = JNull\<rparr>"

text \<open>Scenario A of the specification: a box chip with every field filled in.\<close>

definition scenario_A :: form_page where
  "scenario_A =
     \<lparr>chipTypeButtons =
        [\<lparr>data_chip_type = Some (lit ''box''), aria_pressed = True\<rparr>,
         \<lparr>data_chip_type = Some (lit ''bulk''), aria_pressed = False\<rparr>,
         \<lparr>data_chip_type = Some (lit ''purchased''), aria_pressed = False\<rparr>],
      chipBoxInput = lit ''A1B2'', chipBulkInput = [], chipPurchasedSelect = [],
      productSelect = lit ''Resin-X'', netWeightInput = lit ''12.5'',
      operatorInput = lit ''Jane Doe'', errorElement = Some [], focused = None,
      stored = JObj []\<rparr>"

text \<open>Scenario A with a space typed before the box number.\<close>

definition padded_box_page :: form_page where
  "padded_box_page = scenario_A\<lparr>chipBoxInput := lit '' A1B2''\<rparr>"

text \<open>Scenario A on the form page of \<^verbatim>\<open>app.js\<close>.\<close>

definition app_scenario_A :: app_form_page where
  "app_scenario_A =
     \<lparr>boxInput = lit ''A1B2'', app_productSelect = lit ''Resin-X'',
      app_netWeightInput = lit ''12.5'', app_operatorInput = lit ''Jane Doe'',
      app_errorElement = Some [], app_focused = None, app_stored = JObj []\<rparr>"

text \<open>A text that cannot continue a run of digits as a decimal literal: it is empty, or
  it starts with a character that is not a digit, a point or an exponent letter.\<close>

definition not_numeric :: "jsstring \<Rightarrow> bool" where
  "not_numeric r \<longleftrightarrow>
     (case r of [] \<Rightarrow> True
      | c # _ \<Rightarrow> \<not> is_digit c \<and> c \<noteq> 0x2E \<and> c \<noteq> 0x65 \<and> c \<noteq> 0x45)"


text \<open>The request body that the summary page sends for Scenario A, parsed.\<close>

definition scenario_A_body :: jsvalue where
  "scenario_A_body =
     JObj [(lit ''boxNumber'', JStr (lit ''A1B2'')), (lit ''product'', JStr (lit ''Resin-X'')),
           (lit ''netWeight'', JStr (lit ''12.5'')), (lit ''operatorName'', JStr (lit ''Jane Doe'')),
           (lit ''destination'', JStr (lit ''Line 1''))]"

definition scenario_A_json :: jsstring where
  \<open>scenario_A_json =
     lit ''{"boxNumber":"A1B2","product":"Resin-X","netWeight":"12.5","operatorName":"Jane Doe","destination":"Line 1"}''\<close>

text \<open>The summary page as entered with the record of Scenario A stored.\<close>

definition scenario_A_summary :: summary_state where
  "scenario_A_summary =
     \<lparr>sum_stored = scenario_A_body, saveButton_disabled = False, save_message = Some [],
      redirectTimer = None, pending = 0, requests = [], alerts = [],
      sum_storage = Some scenario_A_json, location = ''summary.html''\<rparr>"

text \<open>The form page on a first visit, before anything is typed.\<close>

definition blank_form_page :: form_page where
  "blank_form_page =
     \<lparr>chipTypeButtons =
        [\<lparr>data_chip_type = Some (lit ''box''), aria_pressed = False\<rparr>,
         \<lparr>data_chip_type = Some (lit ''bulk''), aria_pressed = False\<rparr>,
         \<lparr>data_chip_type = Some (lit ''purchased''), aria_pressed = False\<rparr>],
      chipBoxInput = [], chipBulkInput = [], chipPurchasedSelect = [],
      productSelect = [], netWeightInput = [], operatorInput = [],
      errorElement = Some [], focused = None, stored = JObj []\<rparr>"

definition box_button :: chip_button where
  "box_button = \<lparr>data_chip_type = Some (lit ''box''), aria_pressed = False\<rparr>"


text \<open>A number format for inputs that hold no number.\<close>

definition no_numbers :: numfmt where
  "no_numbers x = []"

text \<open>A number format for inputs whose only number is 12.5.\<close>

definition only_12_5 :: numfmt where
  "only_12_5 x = (if x = Finite False (25 / 2) then lit ''12.5'' else [])"

section \<open>Evaluation on concrete inputs\<close>

lemmas char_defs = lit_def is_space_def is_digit_def is_alnum_def is_json_ws_def skip_ws_def

lemmas weak_congs =
  list.case_cong_weak sum.case_cong_weak option.case_cong_weak prod.case_cong_weak if_weak_cong

lemmas parse_numeral =
  parse_value.simps(2)[of "pred_numeral k" for k, folded numeral_eq_Suc]
  parse_elements.simps(2)[of "pred_numeral k" for k, folded numeral_eq_Suc]
  parse_members.simps(2)[of "pred_numeral k" for k, folded numeral_eq_Suc]

lemmas json_defs =
  JSON_parse_def json_number_def json_fraction_def json_exponent_def exponent_part_def
  digits_val_def digit_val_def scale10_def obj_of_members_def is_hex_def hex_val_def
  unescape_def

lemmas store_defs = getStoredData_def getStoredData_try_def setStoredData_def clearStoredData_def

lemma getStoredData_None: "getStoredData None = JObj []"
  by (simp add: store_defs json_defs char_defs parse_numeral cong: weak_congs)

lemma getStoredData_step1_record: "getStoredData (Some step1_record_json) = step1_record"
  unfolding step1_record_json_def step1_record_def
  by (simp add: store_defs json_defs char_defs parse_numeral cong: weak_congs)

section \<open>The parser never runs out of steps\<close>

lemma skip_ws_length: "length (skip_ws s) \<le> length s"
  by (simp add: skip_ws_def length_dropWhile_le)

lemma skip_ws_Cons_length: "skip_ws s = c # cs \<Longrightarrow> length cs < length s"
  using skip_ws_length[of s] by simp

lemma parse_chars_length: "parse_chars s = Some (t, r) \<Longrightarrow> length r < length s"
proof (induction s arbitrary: t r rule: parse_chars.induct)
  case 1
  then show ?case by simp
next
  case (2 c cs)
  show ?case
    using "2.prems" "2.IH"
    by (fastforce split: if_splits list.splits option.splits)
qed

lemma exponent_part_length: "exponent_part s = Some (e, r) \<Longrightarrow> length r \<le> length s"
  by (auto simp: exponent_part_def Let_def length_dropWhile_le le_SucI
      split: list.splits if_splits prod.splits)

lemma json_exponent_length: "json_exponent s = Some (e, r) \<Longrightarrow> length r \<le> length s"
  by (auto simp: json_exponent_def split: list.splits if_splits dest: exponent_part_length)

lemma json_fraction_length: "json_fraction s = Some (fp, r) \<Longrightarrow> length r \<le> length s"
  by (auto simp: json_fraction_def length_dropWhile_le le_SucI split: list.splits if_splits)

lemma dropWhile_shorter: "takeWhile P s \<noteq> [] \<Longrightarrow> length (dropWhile P s) < length s"
  by (cases s) (auto simp: length_dropWhile_le less_Suc_eq_le split: if_splits)

lemma json_number_length:
  assumes "json_number s = Some (q, r)"
  shows "length r < length s"
proof -
  obtain neg u where nu: "(case s of [] \<Rightarrow> (False, s) | c # r \<Rightarrow> if c = 0x2D then (True, r) else (False, s)) = (neg, u)"
    by fastforce
  have ul: "length u \<le> length s" using nu by (auto split: list.splits if_splits)
  from assms nu obtain fp r2 e where
    ne: "takeWhile is_digit u \<noteq> []" and
    f: "json_fraction (dropWhile is_digit u) = Some (fp, r2)" and
    x: "json_exponent r2 = Some (e, r)"
    by (auto simp: json_number_def Let_def split: option.splits if_splits)
  have "length r \<le> length r2" using x by (rule json_exponent_length)
  also have "\<dots> \<le> length (dropWhile is_digit u)" using f by (rule json_fraction_length)
  also have "\<dots> < length u" using ne by (rule dropWhile_shorter)
  finally show ?thesis using ul by simp
qed


lemma parse_consumes:
  "parse_value n s = Inr (v, r) \<Longrightarrow> length r < length s"
  "parse_elements n s = Inr (vs, r) \<Longrightarrow> length r < length s"
  "parse_members n s = Inr (ms, r) \<Longrightarrow> length r < length s"
proof (induction n s and n s and n s arbitrary: v r and vs r and ms r
    rule: parse_value_parse_elements_parse_members.induct)
  case (1 s)
  then show ?case by simp
next
  case (2 n s)
  from "2.prems" obtain c cs where sk: "skip_ws s = c # cs"
    by (auto split: list.splits)
  have cs: "length cs < length s" using sk by (rule skip_ws_Cons_length)
  consider (arr) "c = 0x5B" | (obj) "c \<noteq> 0x5B" "c = 0x7B" | (str) "c \<noteq> 0x5B" "c \<noteq> 0x7B" "c = 0x22"
    | (other) "c \<noteq> 0x5B" "c \<noteq> 0x7B" "c \<noteq> 0x22" by blast
  then show ?case
  proof cases
    case arr
    from "2.prems" sk arr obtain d ds where sk2: "skip_ws cs = d # ds"
      by (auto split: list.splits)
    show ?thesis
    proof (cases "d = 0x5D")
      case True
      then have "r = ds" using "2.prems" sk arr sk2 by simp
      moreover have "length ds < length cs" using sk2 by (rule skip_ws_Cons_length)
      ultimately show ?thesis using cs by simp
    next
      case False
      then obtain xs where "parse_elements n cs = Inr (xs, r)"
        using "2.prems" sk arr sk2 by (auto split: sum.splits)
      then have "length r < length cs"
        using "2.IH"(1)[OF sk arr sk2 False] by blast
      then show ?thesis using cs by simp
    qed
  next
    case obj
    from "2.prems" sk obj obtain d ds where sk2: "skip_ws cs = d # ds"
      by (auto split: list.splits)
    show ?thesis
    proof (cases "d = 0x7D")
      case True
      then have "r = ds" using "2.prems" sk obj sk2 by simp
      moreover have "length ds < length cs" using sk2 by (rule skip_ws_Cons_length)
      ultimately show ?thesis using cs by simp
    next
      case False
      then obtain xs where "parse_members n cs = Inr (xs, r)"
        using "2.prems" sk obj sk2 by (auto split: sum.splits)
      then have "length r < length cs"
        using "2.IH"(2)[OF sk obj(1) obj(2) sk2 False] by blast
      then show ?thesis using cs by simp
    qed
  next
    case str
    then obtain t where "parse_chars cs = Some (t, r)"
      using "2.prems" sk by (auto split: option.splits)
    then have "length r < length cs" by (rule parse_chars_length)
    then show ?thesis using cs by simp
  next
    case other
    have sl: "length (c # cs) \<le> length s" using sk skip_ws_length[of s] by simp
    from "2.prems" sk other
    have "r = drop 4 (c # cs) \<or> r = drop 5 (c # cs) \<or> (\<exists>q. json_number (c # cs) = Some (q, r))"
      by (auto split: if_splits option.splits)
    then show ?thesis
      using sl by (auto dest!: json_number_length)
  qed
next
  case (3 s)
  then show ?case by simp
next
  case (4 n s)
  from "4.prems" obtain v r1 where pv: "parse_value n s = Inr (v, r1)"
    by (auto split: sum.splits)
  have r1: "length r1 < length s" using "4.IH"(1)[OF pv] .
  from "4.prems" pv obtain c cs where sk: "skip_ws r1 = c # cs"
    by (auto split: list.splits)
  have cs: "length cs < length r1" using sk by (rule skip_ws_Cons_length)
  show ?case
  proof (cases "c = 0x2C")
    case True
    then obtain ws where pe: "parse_elements n cs = Inr (ws, r)"
      using "4.prems" pv sk by (auto split: sum.splits)
    have "length r < length cs"
      using "4.IH"(2)[OF pv refl sk True pe] .
    then show ?thesis using cs r1 by simp
  next
    case False
    then have "r = cs" using "4.prems" pv sk by (auto split: if_splits)
    then show ?thesis using cs r1 by simp
  qed
next
  case (5 s)
  then show ?case by simp
next
  case (6 n s)
  from "6.prems" obtain q qs where sk: "skip_ws s = q # qs"
    by (auto split: list.splits)
  from "6.prems" sk have q: "q = 0x22" by (auto split: if_splits)
  from "6.prems" sk q obtain k r0 where pc: "parse_chars qs = Some (k, r0)"
    by (auto split: option.splits)
  from "6.prems" sk q pc obtain d ds where sk2: "skip_ws r0 = d # ds"
    by (auto split: list.splits)
  from "6.prems" sk q pc sk2 have d: "d = 0x3A" by (auto split: if_splits)
  from "6.prems" sk q pc sk2 d obtain v r2 where pv: "parse_value n ds = Inr (v, r2)"
    by (auto split: sum.splits)
  from "6.prems" sk q pc sk2 d pv obtain c cs where sk3: "skip_ws r2 = c # cs"
    by (auto split: list.splits)
  have l1: "length qs < length s" using sk by (rule skip_ws_Cons_length)
  have l2: "length r0 < length qs" using pc by (rule parse_chars_length)
  have l3: "length ds < length r0" using sk2 by (rule skip_ws_Cons_length)
  have l4: "length r2 < length ds" using "6.IH"(1)[OF sk q pc refl sk2 d pv] .
  have l5: "length cs < length r2" using sk3 by (rule skip_ws_Cons_length)
  show ?case
  proof (cases "c = 0x2C")
    case True
    then obtain ws where pm: "parse_members n cs = Inr (ws, r)"
      using "6.prems" sk q pc sk2 d pv sk3 by (auto split: sum.splits)
    have "length r < length cs"
      using "6.IH"(2)[OF sk q pc refl sk2 d pv refl sk3 True pm] .
    then show ?thesis using l1 l2 l3 l4 l5 by simp
  next
    case False
    then have "r = cs" using "6.prems" sk q pc sk2 d pv sk3 by (auto split: if_splits)
    then show ?thesis using l1 l2 l3 l4 l5 by simp
  qed
qed


lemma parse_fuel:
  "2 * length s < n \<Longrightarrow> parse_value n s \<noteq> Inl OutOfFuel"
  "2 * length s + 1 < n \<Longrightarrow> parse_elements n s \<noteq> Inl OutOfFuel"
  "2 * length s + 1 < n \<Longrightarrow> parse_members n s \<noteq> Inl OutOfFuel"
proof (induction n s and n s and n s
    rule: parse_value_parse_elements_parse_members.induct)
  case (1 s)
  then show ?case by simp
next
  case (2 n s)
  show ?case
  proof
    assume oof: "parse_value (Suc n) s = Inl OutOfFuel"
    then obtain c cs where sk: "skip_ws s = c # cs"
      by (auto split: list.splits)
    have cs: "length cs < length s" using sk by (rule skip_ws_Cons_length)
    then have fuel: "2 * length cs + 1 < n" using "2.prems" by simp
    from oof sk have "c = 0x5B \<or> (c \<noteq> 0x5B \<and> c = 0x7B)"
      by (auto split: if_splits option.splits)
    then show False
    proof
      assume arr: "c = 0x5B"
      from oof sk arr obtain d ds where sk2: "skip_ws cs = d # ds"
        by (auto split: list.splits)
      from oof sk arr sk2 have d: "d \<noteq> 0x5D" by auto
      from oof sk arr sk2 d have "parse_elements n cs = Inl OutOfFuel"
        by (auto split: sum.splits)
      then show False using "2.IH"(1)[OF sk arr sk2 d fuel] by simp
    next
      assume obj: "c \<noteq> 0x5B \<and> c = 0x7B"
      from oof sk obj obtain d ds where sk2: "skip_ws cs = d # ds"
        by (auto split: list.splits)
      from oof sk obj sk2 have d: "d \<noteq> 0x7D" by auto
      from oof sk obj sk2 d have "parse_members n cs = Inl OutOfFuel"
        by (auto split: sum.splits)
      then show False using "2.IH"(2)[OF sk _ _ sk2 d fuel] obj by simp
    qed
  qed
next
  case (3 s)
  then show ?case by simp
next
  case (4 n s)
  show ?case
  proof
    assume oof: "parse_elements (Suc n) s = Inl OutOfFuel"
    have pv: "parse_value n s \<noteq> Inl OutOfFuel"
      using "4.IH"(1) "4.prems" by simp
    with oof obtain v r1 where pv: "parse_value n s = Inr (v, r1)"
      by (auto split: sum.splits)
    have r1: "length r1 < length s" using pv by (rule parse_consumes)
    from oof pv obtain c cs where sk: "skip_ws r1 = c # cs"
      by (auto split: list.splits)
    have cs: "length cs < length r1" using sk by (rule skip_ws_Cons_length)
    from oof pv sk have c: "c = 0x2C" by (auto split: if_splits)
    from oof pv sk c have "parse_elements n cs = Inl OutOfFuel"
      by (auto split: sum.splits)
    moreover have "2 * length cs + 1 < n" using cs r1 "4.prems" by simp
    ultimately show False using "4.IH"(2)[OF pv refl sk c] by simp
  qed
next
  case (5 s)
  then show ?case by simp
next
  case (6 n s)
  show ?case
  proof
    assume oof: "parse_members (Suc n) s = Inl OutOfFuel"
    then obtain q qs where sk: "skip_ws s = q # qs"
      by (auto split: list.splits)
    from oof sk have q: "q = 0x22" by (auto split: if_splits)
    from oof sk q obtain k r0 where pc: "parse_chars qs = Some (k, r0)"
      by (auto split: option.splits)
    from oof sk q pc obtain d ds where sk2: "skip_ws r0 = d # ds"
      by (auto split: list.splits)
    from oof sk q pc sk2 have d: "d = 0x3A" by (auto split: if_splits)
    have l1: "length qs < length s" using sk by (rule skip_ws_Cons_length)
    have l2: "length r0 < length qs" using pc by (rule parse_chars_length)
    have l3: "length ds < length r0" using sk2 by (rule skip_ws_Cons_length)
    have "parse_value n ds \<noteq> Inl OutOfFuel"
      using "6.IH"(1)[OF sk q pc refl sk2 d] l1 l2 l3 "6.prems" by simp
    with oof sk q pc sk2 d obtain v r2 where pv: "parse_value n ds = Inr (v, r2)"
      by (auto split: sum.splits)
    have l4: "length r2 < length ds" using pv by (rule parse_consumes)
    from oof sk q pc sk2 d pv obtain c cs where sk3: "skip_ws r2 = c # cs"
      by (auto split: list.splits)
    have l5: "length cs < length r2" using sk3 by (rule skip_ws_Cons_length)
    from oof sk q pc sk2 d pv sk3 have c: "c = 0x2C" by (auto split: if_splits)
    from oof sk q pc sk2 d pv sk3 c have "parse_members n cs = Inl OutOfFuel"
      by (auto split: sum.splits)
    moreover have "2 * length cs + 1 < n" using l1 l2 l3 l4 l5 "6.prems" by simp
    ultimately show False using "6.IH"(2)[OF sk q pc refl sk2 d pv refl sk3 c] by simp
  qed
qed

lemma JSON_parse_total: "JSON_parse s \<noteq> Inl OutOfFuel"
  using parse_fuel(1)[of s "2 * length s + 1"]
  by (auto simp: JSON_parse_def split: sum.splits)

lemma JSON_parse_cases: "JSON_parse s = Inl SyntaxError \<or> (\<exists>v. JSON_parse s = Inr v)"
  using JSON_parse_total[of s]
  by (cases "JSON_parse s") (auto intro: parse_error.exhaust)

section \<open>Entry guards\<close>

text \<open>
  C3. A field is lacking when reading it gives a falsy value (it is absent, or null,
  false, zero or the empty string). For every stored text: if the record loaded from
  it lacks a step-1 field, entering step 2 and entering step 3 both redirect to
  \<^verbatim>\<open>index.html\<close> and set up no page; if it has the four step-1 fields and lacks
  \<^verbatim>\<open>destination\<close>, entering step 3 redirects to \<^verbatim>\<open>destination.html\<close>; with nothing stored,
  both pages redirect to \<^verbatim>\<open>index.html\<close>.
\<close>

theorem entry_guards:
  "(step1_incomplete (getStoredData ls) \<longrightarrow>
      initDestinationPage html ls = Redirected ''index.html'' \<and>
      initSummaryPage m ls = Redirected ''index.html'') \<and>
   (\<not> step1_incomplete (getStoredData ls) \<and>
    \<not> truthy_opt (get_prop (getStoredData ls) (lit ''destination'')) \<longrightarrow>
      initSummaryPage m ls = Redirected ''destination.html'') \<and>
   initDestinationPage html None = Redirected ''index.html'' \<and>
   initSummaryPage m None = Redirected ''index.html''"
  by (simp add: initDestinationPage_def initSummaryPage_def Let_def getStoredData_None
      step1_incomplete_def)

theorem entry_guards_witness:
  \<open>step1_incomplete (getStoredData (Some (lit ''{"product":"Resin-X"}''))) \<and>
   initDestinationPage no_checkboxes (Some (lit ''{"product":"Resin-X"}'')) = Redirected ''index.html'' \<and>
   initSummaryPage None (Some (lit ''{"product":"Resin-X"}'')) = Redirected ''index.html'' \<and>
   \<not> step1_incomplete (getStoredData (Some step1_record_json)) \<and>
   \<not> truthy_opt (get_prop (getStoredData (Some step1_record_json)) (lit ''destination'')) \<and>
   initSummaryPage None (Some step1_record_json) = Redirected ''destination.html''\<close>
proof -
  have a: \<open>getStoredData (Some (lit ''{"product":"Resin-X"}'')) =
           JObj [(lit ''product'', JStr (lit ''Resin-X''))]\<close>
    by (simp add: store_defs json_defs char_defs parse_numeral cong: weak_congs)
  have b: \<open>step1_incomplete (getStoredData (Some (lit ''{"product":"Resin-X"}'')))\<close>
    unfolding a by (simp add: step1_incomplete_def lit_def)
  have c: "\<not> step1_incomplete (getStoredData (Some step1_record_json))"
    unfolding getStoredData_step1_record by (simp add: step1_incomplete_def step1_record_def lit_def)
  have d: "\<not> truthy_opt (get_prop (getStoredData (Some step1_record_json)) (lit ''destination''))"
    unfolding getStoredData_step1_record by (simp add: step1_record_def lit_def)
  show ?thesis
    using b c d
      entry_guards [of \<open>Some (lit ''{"product":"Resin-X"}'')\<close> no_checkboxes None]
      entry_guards [of "Some step1_record_json" no_checkboxes None]
    by blast
qed

section \<open>Loading the stored state\<close>

text \<open>
  C8. Loading gives the empty record when nothing is stored, when the stored text is
  not valid JSON, and when it is the JSON of a falsy value; whatever the body of the
  \<^verbatim>\<open>try\<close> block raises, the caller gets the empty record and no error. Every text
  either is rejected as not JSON or parses to a value.
\<close>

theorem load_degrades_to_empty:
  "getStoredData None = JObj [] \<and>
   (JSON_parse s = Inl SyntaxError \<longrightarrow> getStoredData (Some s) = JObj []) \<and>
   (\<forall>v. JSON_parse s = Inr v \<and> \<not> truthy v \<longrightarrow> getStoredData (Some s) = JObj []) \<and>
   (\<forall>e. getStoredData_try ls = Inl e \<longrightarrow> getStoredData ls = JObj []) \<and>
   (JSON_parse s = Inl SyntaxError \<or> (\<exists>v. JSON_parse s = Inr v))"
proof (intro conjI allI impI)
  show "getStoredData None = JObj []" by (rule getStoredData_None)
next
  show "JSON_parse s = Inl SyntaxError \<or> (\<exists>v. JSON_parse s = Inr v)"
    by (rule JSON_parse_cases)
next
  assume "JSON_parse s = Inl SyntaxError"
  then show "getStoredData (Some s) = JObj []"
    by (simp add: getStoredData_def getStoredData_try_def)
next
  fix v assume "JSON_parse s = Inr v \<and> \<not> truthy v"
  then show "getStoredData (Some s) = JObj []"
    by (simp add: getStoredData_def getStoredData_try_def)
next
  fix e assume "getStoredData_try ls = Inl e"
  then show "getStoredData ls = JObj []"
    by (simp add: getStoredData_def)
qed

theorem load_degrades_to_empty_witness:
  \<open>JSON_parse (lit ''{oops'') = Inl SyntaxError \<and>
   getStoredData (Some (lit ''{oops'')) = JObj [] \<and>
   JSON_parse (lit ''""'') = Inr (JStr []) \<and> \<not> truthy (JStr []) \<and>
   getStoredData (Some (lit ''""'')) = JObj [] \<and>
   getStoredData_try (Some (lit ''{oops'')) = Inl SyntaxError\<close>
proof -
  have a: \<open>JSON_parse (lit ''{oops'') = Inl SyntaxError\<close>
    by (simp add: json_defs char_defs parse_numeral cong: weak_congs)
  have b: \<open>JSON_parse (lit ''""'') = Inr (JStr [])\<close>
    by (simp add: json_defs char_defs parse_numeral cong: weak_congs)
  have c: \<open>getStoredData_try (Some (lit ''{oops'')) = Inl SyntaxError\<close>
    by (simp add: getStoredData_try_def a)
  show ?thesis
    using a b c
      load_degrades_to_empty [of \<open>lit ''{oops''\<close> \<open>Some (lit ''{oops'')\<close>]
      load_degrades_to_empty [of \<open>lit ''""''\<close> None]
    by simp
qed

section \<open>Step 1: the order of the checks\<close>

lemma trim_Nil [simp]: "trim [] = []" by (simp add: trim_def)
lemma normalizeText_trim: "normalizeText v = trim v" by (simp add: normalizeText_def)

lemma lit_distinct:
  "lit ''box'' \<noteq> lit ''bulk''" "lit ''box'' \<noteq> lit ''purchased''" "lit ''bulk'' \<noteq> lit ''purchased''"
  "lit ''bulk'' \<noteq> lit ''box''" "lit ''purchased'' \<noteq> lit ''box''" "lit ''purchased'' \<noteq> lit ''bulk''"
  "lit ''box'' \<noteq> []" "lit ''bulk'' \<noteq> []" "lit ''purchased'' \<noteq> []"
  by (simp_all add: lit_def)

lemmas step1_defs =
  form_validate_def chip_boxNumber_def spec_first_failure_def spec_step1_rules_def
  spec_variant_value_def spec_variant_class_def rule_error_def spec_step1_fields_def
  normalizeText_trim re_alnum_test_def re_digit_test_def Let_def

lemma form_validate_spec:
  "form_validate pg =
     (case spec_first_failure pg of
        Some r \<Rightarrow> rule_error (getSelectedChipType (chipTypeButtons pg)) r
      | None \<Rightarrow> Valid (spread_with (stored pg) (spec_step1_fields pg)))"
proof -
  define t where "t = getSelectedChipType (chipTypeButtons pg)"
  consider (box) "t = lit ''box''" | (bulk) "t = lit ''bulk''" | (purchased) "t = lit ''purchased''"
    | (none) "t = []" | (other) "t \<noteq> lit ''box''" "t \<noteq> lit ''bulk''" "t \<noteq> lit ''purchased''" "t \<noteq> []"
    by blast
  then show ?thesis
  proof cases
    case box
    then show ?thesis unfolding t_def
      by (simp add: step1_defs lit_distinct not_less)
  next
    case bulk
    then show ?thesis unfolding t_def
      by (simp add: step1_defs lit_distinct not_less)
  next
    case purchased
    then show ?thesis unfolding t_def
      by (simp add: step1_defs lit_distinct not_less)
  next
    case none
    then show ?thesis unfolding t_def
      by (simp add: step1_defs lit_distinct[symmetric])
  next
    case other
    then show ?thesis unfolding t_def
      by (simp add: step1_defs)
  qed
qed

lemma rule_error_Invalid: "\<exists>m c. rule_error t r = Invalid m c"
  by (cases r) (simp_all add: rule_error_def)

lemma setMessage_twice [simp]: "setMessage (setMessage e a) b = setMessage e b"
  by (cases e) (simp_all add: setMessage_def)

lemma map_of_foldl_update:
  "map_of (foldl (\<lambda>acc (k, x). AList.update k x acc) al kxs) = map_of al ++ map_of (rev kxs)"
proof (induction kxs arbitrary: al)
  case Nil
  then show ?case by simp
next
  case (Cons kx kxs)
  obtain k x where kx: "kx = (k, x)" by (cases kx)
  show ?case
    by (simp add: kx Cons.IH update_conv' map_add_def fun_eq_iff split: option.splits)
qed

lemma get_prop_spread_with:
  "get_prop (spread_with v kxs) k =
     (case map_of (rev kxs) k of Some x \<Rightarrow> Some x | None \<Rightarrow> map_of (spread v) k)"
  by (simp add: spread_with_def map_of_foldl_update map_add_def)

lemma step1_fields_stored:
  "get_prop (spread_with v (spec_step1_fields pg)) (lit ''boxNumber'') = Some (JStr (spec_variant_value pg))"
  "get_prop (spread_with v (spec_step1_fields pg)) (lit ''product'') = Some (JStr (productSelect pg))"
  "get_prop (spread_with v (spec_step1_fields pg)) (lit ''netWeight'') = Some (JStr (trim (netWeightInput pg)))"
  "get_prop (spread_with v (spec_step1_fields pg)) (lit ''operatorName'') = Some (JStr (trim (operatorInput pg)))"
  "get_prop (spread_with v (spec_step1_fields pg)) (lit ''chipType'') = Some (JStr (getSelectedChipType (chipTypeButtons pg)))"
  "get_prop (spread_with v (spec_step1_fields pg)) (lit ''chipBoxNumber'') = Some (JStr (trim (chipBoxInput pg)))"
  "get_prop (spread_with v (spec_step1_fields pg)) (lit ''chipBulkSilo'') = Some (JStr (trim (chipBulkInput pg)))"
  "get_prop (spread_with v (spec_step1_fields pg)) (lit ''chipPurchased'') = Some (JStr (chipPurchasedSelect pg))"
  by (simp_all add: get_prop_spread_with spec_step1_fields_def lit_def)

text \<open>
  C1. The checks of the step-1 submit handler are the seven rules of the
  specification taken in order (chip type known; variant value present; variant value
  of its character class; product chosen; net weight present; net weight a finite
  number above zero; operator name of two tokens): the handler reports the first rule
  that fails, with one message and one focused control, stores nothing and stays on the
  page. When no rule fails it stores the record with the trimmed fields, the value of
  the selected variant under \<^verbatim>\<open>boxNumber\<close>, and goes to the destination page.
\<close>

theorem step1_validation_order:
  "(\<forall>r. spec_first_failure pg = Some r \<longrightarrow>
      form_validate pg = rule_error (getSelectedChipType (chipTypeButtons pg)) r \<and>
      (\<exists>m c. form_validate pg = Invalid m c \<and>
         form_submit nf pg ls =
           \<lparr>page_of = pg\<lparr>errorElement := setMessage (errorElement pg) m, focused := Some c\<rparr>,
            storage_of = ls, navigated = None\<rparr>)) \<and>
   (spec_first_failure pg = None \<longrightarrow>
      form_validate pg = Valid (spread_with (stored pg) (spec_step1_fields pg)) \<and>
      storage_of (form_submit nf pg ls) =
        setStoredData nf (spread_with (stored pg) (spec_step1_fields pg)) ls \<and>
      navigated (form_submit nf pg ls) = Some ''destination.html'' \<and>
      get_prop (spread_with (stored pg) (spec_step1_fields pg)) (lit ''boxNumber'') =
        Some (JStr (spec_variant_value pg)) \<and>
      get_prop (spread_with (stored pg) (spec_step1_fields pg)) (lit ''product'') =
        Some (JStr (productSelect pg)) \<and>
      get_prop (spread_with (stored pg) (spec_step1_fields pg)) (lit ''netWeight'') =
        Some (JStr (trim (netWeightInput pg))) \<and>
      get_prop (spread_with (stored pg) (spec_step1_fields pg)) (lit ''operatorName'') =
        Some (JStr (trim (operatorInput pg))))"
proof (intro conjI allI impI)
  fix r assume r: "spec_first_failure pg = Some r"
  then show v: "form_validate pg = rule_error (getSelectedChipType (chipTypeButtons pg)) r"
    by (simp add: form_validate_spec)
  obtain m c where mc: "rule_error (getSelectedChipType (chipTypeButtons pg)) r = Invalid m c"
    using rule_error_Invalid by blast
  show "\<exists>m c. form_validate pg = Invalid m c \<and>
         form_submit nf pg ls =
           \<lparr>page_of = pg\<lparr>errorElement := setMessage (errorElement pg) m, focused := Some c\<rparr>,
            storage_of = ls, navigated = None\<rparr>"
    using v mc by (simp add: form_submit_def)
next
  assume n: "spec_first_failure pg = None"
  then show v: "form_validate pg = Valid (spread_with (stored pg) (spec_step1_fields pg))"
    by (simp add: form_validate_spec)
  show "storage_of (form_submit nf pg ls) =
        setStoredData nf (spread_with (stored pg) (spec_step1_fields pg)) ls"
    by (simp add: form_submit_def v)
  show "navigated (form_submit nf pg ls) = Some ''destination.html''"
    by (simp add: form_submit_def v)
qed (rule step1_fields_stored)+

lemmas num_defs = parseFloat_def signed_literal_def unsigned_literal_def exponent_part_def digits_val_def digit_val_def scale10_def
  rounds_to_zero_def rounds_to_infinity_def

lemma scenario_A_passes: "spec_first_failure scenario_A = None"
  by (simp add: spec_first_failure_def spec_step1_rules_def spec_variant_value_def
      spec_variant_class_def scenario_A_def getSelectedChipType_def trim_def char_defs
      num_defs operatorParts_of_def split_ws.simps Let_def)

lemma scenario_B_fails:
  "spec_first_failure (scenario_A\<lparr>netWeightInput := lit ''-3''\<rparr>) = Some WeightPositive"
  by (simp add: spec_first_failure_def spec_step1_rules_def spec_variant_value_def
      spec_variant_class_def scenario_A_def getSelectedChipType_def trim_def char_defs
      num_defs operatorParts_of_def split_ws.simps Let_def)

theorem step1_validation_order_witness:
  "spec_first_failure scenario_A = None \<and>
   navigated (form_submit no_numbers scenario_A None) = Some ''destination.html'' \<and>
   get_prop (spread_with (stored scenario_A) (spec_step1_fields scenario_A)) (lit ''boxNumber'') =
     Some (JStr (lit ''A1B2'')) \<and>
   spec_first_failure (scenario_A\<lparr>netWeightInput := lit ''-3''\<rparr>) = Some WeightPositive \<and>
   form_validate (scenario_A\<lparr>netWeightInput := lit ''-3''\<rparr>) =
     Invalid ''Net weight must be a positive number.'' NetWeightInput"
proof -
  have v: "spec_variant_value scenario_A = lit ''A1B2''"
    by (simp add: spec_variant_value_def scenario_A_def getSelectedChipType_def trim_def char_defs)
  show ?thesis
    using scenario_A_passes scenario_B_fails v
      step1_validation_order [of scenario_A no_numbers None]
      step1_validation_order [of "scenario_A\<lparr>netWeightInput := lit ''-3''\<rparr>" no_numbers None]
    by (simp add: rule_error_def)
qed

section \<open>Trailing white space does not change what \<^verbatim>\<open>parseFloat\<close> reads\<close>

lemma space_not_literal:
  assumes "is_space c"
  shows "\<not> is_digit c" "c \<noteq> 0x2D" "c \<noteq> 0x2B" "c \<noteq> 0x2E" "c \<noteq> 0x65" "c \<noteq> 0x45"
    "c \<notin> set (lit ''Infinity'')"
  using assms
  by (auto simp: is_space_def is_digit_def lit_def word_le_nat_alt)

lemma takeWhile_junk: "\<forall>c\<in>set w. \<not> P c \<Longrightarrow> takeWhile P w = []"
  by (cases w) auto

lemma dropWhile_junk: "\<forall>c\<in>set w. \<not> P c \<Longrightarrow> dropWhile P w = w"
  by (cases w) auto

lemma takeWhile_append_junk:
  "\<forall>c\<in>set w. \<not> P c \<Longrightarrow> takeWhile P (u @ w) = takeWhile P u"
  by (induction u) (simp_all add: takeWhile_junk)

lemma dropWhile_append_junk:
  "\<forall>c\<in>set w. \<not> P c \<Longrightarrow> dropWhile P (u @ w) = dropWhile P u @ w"
  by (induction u) (simp_all add: dropWhile_junk)

lemma exponent_part_spaces:
  assumes w: "\<forall>c\<in>set w. is_space c"
  shows "map_option fst (exponent_part (r @ w)) = map_option fst (exponent_part r)"
proof -
  have nd: "\<forall>c\<in>set w. \<not> is_digit c" using w space_not_literal(1) by blast
  note tw = takeWhile_append_junk[OF nd] takeWhile_junk[OF nd]
  show ?thesis
  proof (cases r)
    case Nil
    show ?thesis
    proof (cases w)
      case Nil
      then show ?thesis by simp
    next
      case (Cons x w')
      then have "is_space x" using w by simp
      then have "x \<noteq> 0x65" "x \<noteq> 0x45" using space_not_literal by blast+
      then show ?thesis by (simp add: \<open>r = []\<close> Cons exponent_part_def)
    qed
  next
    case (Cons c r')
    show ?thesis
    proof (cases "c = 0x65 \<or> c = 0x45")
      case False
      then show ?thesis by (simp add: Cons exponent_part_def)
    next
      case True
      show ?thesis
      proof (cases r')
        case Nil
        show ?thesis
        proof (cases w)
          case Nil
          then show ?thesis by simp
        next
          case (Cons x w')
          then have "is_space x" using w by simp
          then have x: "x \<noteq> 0x2D" "x \<noteq> 0x2B" "\<not> is_digit x" using space_not_literal by blast+
          show ?thesis
            using True x by (simp add: \<open>r = c # r'\<close> \<open>r' = []\<close> Cons exponent_part_def)
        qed
      next
        case (Cons d r'')
        then show ?thesis
          using True by (simp add: \<open>r = c # r'\<close> exponent_part_def Let_def tw)
      qed
    qed
  qed
qed

lemma exponent_value_spaces:
  assumes w: "\<forall>c\<in>set w. is_space c"
  shows "(case exponent_part (r @ w) of None \<Rightarrow> 0 | Some (e, _) \<Rightarrow> e) =
         (case exponent_part r of None \<Rightarrow> (0::int) | Some (e, _) \<Rightarrow> e)"
  using exponent_part_spaces[OF w, of r]
  by (auto split: option.splits)

lemma Infinity_prefix_spaces:
  assumes w: "\<forall>c\<in>set w. is_space c"
  shows "take 8 (u @ w) = lit ''Infinity'' \<longleftrightarrow> take 8 u = lit ''Infinity''"
proof (cases "8 \<le> length u")
  case True
  then show ?thesis by simp
next
  case False
  have r: "take 8 u \<noteq> lit ''Infinity''"
  proof
    assume "take 8 u = lit ''Infinity''"
    then have "length (take 8 u) = 8" by (simp add: lit_def)
    then show False using False by simp
  qed
  have l: "take 8 (u @ w) \<noteq> lit ''Infinity''"
  proof
    assume e: "take 8 (u @ w) = lit ''Infinity''"
    then have len: "length (take 8 (u @ w)) = 8" by (simp add: lit_def)
    then have "w \<noteq> []" using False by auto
    then obtain c w' where cw: "w = c # w'" by (cases w) auto
    have "c \<in> set (take 8 (u @ w))" using False cw by (cases "8 - length u") auto
    then have "c \<in> set (lit ''Infinity'')" by (simp only: e)
    moreover have "is_space c" using w cw by simp
    ultimately show False using space_not_literal(7) by blast
  qed
  show ?thesis using r l by simp
qed

lemma unsigned_literal_spaces:
  assumes w: "\<forall>c\<in>set w. is_space c"
  shows "unsigned_literal neg (u @ w) = unsigned_literal neg u"
proof -
  have nd: "\<forall>c\<in>set w. \<not> is_digit c" using w space_not_literal(1) by blast
  have ex: "(case exponent_part (r' @ w) of None \<Rightarrow> 0 | Some (e, _) \<Rightarrow> e) =
         (case exponent_part r' of None \<Rightarrow> (0::int) | Some (e, _) \<Rightarrow> e)" for r'
    by (rule exponent_value_spaces[OF w])
  note rules = unsigned_literal_def Infinity_prefix_spaces[OF w] takeWhile_append_junk[OF nd]
    dropWhile_append_junk[OF nd] Let_def
  show ?thesis
  proof (cases "dropWhile is_digit u")
    case Nil
    show ?thesis
    proof (cases w)
      case Nil
      then show ?thesis by simp
    next
      case (Cons c w')
      then have "is_space c" using w by simp
      then have c: "c \<noteq> 0x2E" "c \<noteq> 0x65" "c \<noteq> 0x45"
        using space_not_literal by blast+
      have e1: "exponent_part (c # w') = None" using c by (simp add: exponent_part_def)
      have e2: "exponent_part [] = None" by (simp add: exponent_part_def)
      show ?thesis
        unfolding rules \<open>dropWhile is_digit u = []\<close>
        by (simp add: Cons c e1 e2)
    qed
  next
    case (Cons c r)
    show ?thesis
      unfolding rules Cons
      by (simp add: takeWhile_append_junk[OF nd] dropWhile_append_junk[OF nd] ex ex[of "c # r", simplified])
  qed
qed

lemma signed_literal_spaces:
  assumes w: "\<forall>c\<in>set w. is_space c"
  shows "signed_literal (t @ w) = signed_literal t"
proof (cases t)
  case Nil
  show ?thesis
  proof (cases w)
    case Nil
    then show ?thesis using \<open>t = []\<close> by simp
  next
    case (Cons c w')
    then have "is_space c" using w by simp
    then have "c \<noteq> 0x2D" "c \<noteq> 0x2B" using space_not_literal by blast+
    then show ?thesis
      using unsigned_literal_spaces[OF w, of False "[]"] \<open>t = []\<close> Cons
      by (simp add: signed_literal_def)
  qed
next
  case (Cons c r)
  then show ?thesis
    using unsigned_literal_spaces[OF w, of _ r] unsigned_literal_spaces[OF w, of False "c # r"]
    by (simp add: signed_literal_def)
qed

lemma strip_right_decomp:
  "\<exists>w. (\<forall>c\<in>set w. P c) \<and> t = rev (dropWhile P (rev t)) @ w"
proof -
  have "rev t = takeWhile P (rev t) @ dropWhile P (rev t)" by simp
  then have "t = rev (dropWhile P (rev t)) @ rev (takeWhile P (rev t))"
    by (metis rev_append rev_rev_ident)
  moreover have "\<forall>c\<in>set (rev (takeWhile P (rev t))). P c"
    by (auto dest: set_takeWhileD)
  ultimately show ?thesis by blast
qed

lemma dropWhile_strip_right:
  "dropWhile P (rev (dropWhile P (rev (dropWhile P s)))) = rev (dropWhile P (rev (dropWhile P s)))"
proof (cases "dropWhile P s")
  case Nil
  show ?thesis unfolding Nil by simp
next
  case (Cons c r)
  then have c: "\<not> P c" using hd_dropWhile[of P s] by (metis list.sel(1) list.distinct(1))
  define x where "x = rev (dropWhile P (rev (c # r)))"
  obtain w where "c # r = x @ w" and w: "\<forall>y\<in>set w. P y"
    using strip_right_decomp[of P "c # r"] unfolding x_def by blast
  then have "x @ w = c # r" by simp
  then obtain p where p: "x = c # p"
    using c w by (cases x) auto
  show ?thesis unfolding Cons x_def[symmetric] p using c by simp
qed

lemma parseFloat_trim: "parseFloat (trim s) = parseFloat s"
proof -
  define t where "t = dropWhile is_space s"
  obtain w where w: "\<forall>c\<in>set w. is_space c" and tw: "t = rev (dropWhile is_space (rev t)) @ w"
    using strip_right_decomp[of is_space t] by blast
  have "parseFloat (trim s) = signed_literal (rev (dropWhile is_space (rev t)))"
    unfolding parseFloat_def trim_def t_def by (simp only: dropWhile_strip_right)
  also have "\<dots> = signed_literal (rev (dropWhile is_space (rev t)) @ w)"
    by (rule signed_literal_spaces[OF w, symmetric])
  also have "\<dots> = signed_literal t" using tw by simp
  finally show ?thesis by (simp add: parseFloat_def t_def)
qed

section \<open>Step 1: malformed input\<close>

lemma mem_dropWhile: "x \<in> set xs \<Longrightarrow> \<not> P x \<Longrightarrow> x \<in> set (dropWhile P xs)"
  by (induction xs) auto

lemma mem_trim: "c \<in> set s \<Longrightarrow> \<not> is_space c \<Longrightarrow> c \<in> set (trim s)"
  by (simp add: trim_def mem_dropWhile)

lemma digit_not_space: "is_digit c \<Longrightarrow> \<not> is_space c"
  using space_not_literal(1) by blast

lemma list_ex_digit_trim: "list_ex is_digit s \<Longrightarrow> list_ex is_digit (trim s)"
  unfolding list_ex_iff using mem_trim digit_not_space by blast

lemma spec_first_failure_None:
  "spec_first_failure pg = None \<longleftrightarrow> (\<forall>rb\<in>set (spec_step1_rules pg). snd rb)"
  unfolding spec_first_failure_def by (simp add: find_None_iff) fastforce

lemma malformed_fails:
  assumes "getSelectedChipType (chipTypeButtons pg) \<notin> {lit ''box'', lit ''bulk'', lit ''purchased''} \<or>
     (getSelectedChipType (chipTypeButtons pg) = lit ''box'' \<and>
        \<not> list_all is_alnum (trim (chipBoxInput pg))) \<or>
     (getSelectedChipType (chipTypeButtons pg) = lit ''bulk'' \<and>
        list_ex is_digit (chipBulkInput pg)) \<or>
     \<not> (isFinite (parseFloat (netWeightInput pg)) \<and> \<not> le_zero (parseFloat (netWeightInput pg))) \<or>
     length (operatorParts_of (trim (operatorInput pg))) < 2"
  shows "spec_first_failure pg \<noteq> None"
proof -
  have "\<exists>rb\<in>set (spec_step1_rules pg). \<not> snd rb"
    using assms list_ex_digit_trim[of "chipBulkInput pg"]
    by (auto simp: spec_step1_rules_def spec_variant_class_def spec_variant_value_def
        parseFloat_trim lit_distinct Let_def)
  then show ?thesis by (simp add: spec_first_failure_None)
qed

text \<open>
  C2 as amended. A step-1 submission is rejected, with the message and the focus of the
  first rule that fails, without navigation and with the storage left as it was, when
  the selected chip type is not box, bulk or purchased; or the type is box and the box
  value, trimmed, has a character that is not an ASCII letter or digit; or the type is
  bulk and the bulk/silo value has a digit; or the net-weight text does not parse to a
  finite number above zero; or the operator name, trimmed, has fewer than two tokens.
\<close>

theorem step1_malformed_rejected:
  assumes "getSelectedChipType (chipTypeButtons pg) \<notin> {lit ''box'', lit ''bulk'', lit ''purchased''} \<or>
     (getSelectedChipType (chipTypeButtons pg) = lit ''box'' \<and>
        \<not> list_all is_alnum (trim (chipBoxInput pg))) \<or>
     (getSelectedChipType (chipTypeButtons pg) = lit ''bulk'' \<and>
        list_ex is_digit (chipBulkInput pg)) \<or>
     \<not> (isFinite (parseFloat (netWeightInput pg)) \<and> \<not> le_zero (parseFloat (netWeightInput pg))) \<or>
     length (operatorParts_of (trim (operatorInput pg))) < 2"
  shows "\<exists>r m c. spec_first_failure pg = Some r \<and>
           rule_error (getSelectedChipType (chipTypeButtons pg)) r = Invalid m c \<and>
           form_validate pg = Invalid m c \<and>
           form_submit nf pg ls =
             \<lparr>page_of = pg\<lparr>errorElement := setMessage (errorElement pg) m, focused := Some c\<rparr>,
              storage_of = ls, navigated = None\<rparr>"
proof -
  obtain r where r: "spec_first_failure pg = Some r"
    using malformed_fails[OF assms] by blast
  obtain m c where mc: "rule_error (getSelectedChipType (chipTypeButtons pg)) r = Invalid m c"
    using rule_error_Invalid by blast
  have v: "form_validate pg = Invalid m c"
    by (simp add: form_validate_spec r mc)
  show ?thesis using r mc v by (simp add: form_submit_def)
qed

lemmas page_eval =
  spec_first_failure_def spec_step1_rules_def spec_variant_value_def
  spec_variant_class_def scenario_A_def getSelectedChipType_def trim_def char_defs
  num_defs operatorParts_of_def split_ws.simps Let_def

theorem step1_malformed_rejected_witness:
  "\<not> (isFinite (parseFloat (netWeightInput (scenario_A\<lparr>netWeightInput := lit ''-3''\<rparr>))) \<and>
      \<not> le_zero (parseFloat (netWeightInput (scenario_A\<lparr>netWeightInput := lit ''-3''\<rparr>)))) \<and>
   form_validate (scenario_A\<lparr>netWeightInput := lit ''-3''\<rparr>) =
     Invalid ''Net weight must be a positive number.'' NetWeightInput \<and>
   storage_of (form_submit no_numbers (scenario_A\<lparr>netWeightInput := lit ''-3''\<rparr>) None) = None \<and>
   navigated (form_submit no_numbers (scenario_A\<lparr>netWeightInput := lit ''-3''\<rparr>) None) = None"
proof -
  have a: "\<not> (isFinite (parseFloat (netWeightInput (scenario_A\<lparr>netWeightInput := lit ''-3''\<rparr>))) \<and>
      \<not> le_zero (parseFloat (netWeightInput (scenario_A\<lparr>netWeightInput := lit ''-3''\<rparr>))))"
    by (simp add: scenario_A_def char_defs num_defs)
  have b: "spec_first_failure (scenario_A\<lparr>netWeightInput := lit ''-3''\<rparr>) = Some WeightPositive"
    by (rule scenario_B_fails)
  have c: "rule_error t WeightPositive = Invalid ''Net weight must be a positive number.'' NetWeightInput" for t
    by (simp add: rule_error_def)
  from step1_malformed_rejected [of "scenario_A\<lparr>netWeightInput := lit ''-3''\<rparr>" no_numbers None] a
  obtain r m k where
    "spec_first_failure (scenario_A\<lparr>netWeightInput := lit ''-3''\<rparr>) = Some r"
    "rule_error (getSelectedChipType (chipTypeButtons (scenario_A\<lparr>netWeightInput := lit ''-3''\<rparr>))) r = Invalid m k"
    "form_validate (scenario_A\<lparr>netWeightInput := lit ''-3''\<rparr>) = Invalid m k"
    "form_submit no_numbers (scenario_A\<lparr>netWeightInput := lit ''-3''\<rparr>) None =
       \<lparr>page_of = (scenario_A\<lparr>netWeightInput := lit ''-3''\<rparr>)
           \<lparr>errorElement := setMessage (errorElement (scenario_A\<lparr>netWeightInput := lit ''-3''\<rparr>)) m,
            focused := Some k\<rparr>,
        storage_of = None, navigated = None\<rparr>"
    by blast
  then show ?thesis using a b c by simp
qed

text \<open>
  C2 as stated fails: with box selected, the box value \<^verbatim>\<open>" A1B2"\<close> contains a character
  that is not alphanumeric (the leading space), and the submission is accepted, stored
  and navigated, because the handler trims the value before it checks it.
\<close>

theorem step1_padded_box_counterexample:
  "getSelectedChipType (chipTypeButtons padded_box_page) = lit ''box'' \<and>
   \<not> list_all is_alnum (chipBoxInput padded_box_page) \<and>
   navigated (form_submit no_numbers padded_box_page None) = Some ''destination.html'' \<and>
   storage_of (form_submit no_numbers padded_box_page None) \<noteq> None"
proof -
  have "spec_first_failure padded_box_page = None"
    by (simp add: padded_box_page_def page_eval)
  then have "form_validate padded_box_page =
      Valid (spread_with (stored padded_box_page) (spec_step1_fields padded_box_page))"
    by (simp add: form_validate_spec)
  moreover have "getSelectedChipType (chipTypeButtons padded_box_page) = lit ''box''"
    by (simp add: padded_box_page_def scenario_A_def getSelectedChipType_def)
  moreover have "\<not> list_all is_alnum (chipBoxInput padded_box_page)"
    by (simp add: padded_box_page_def scenario_A_def char_defs)
  ultimately show ?thesis
    by (simp add: form_submit_def setStoredData_def)
qed

section \<open>Step 1: the net weight\<close>

lemma digits_prefix_parse:
  assumes ds: "ds \<noteq> []" "list_all is_digit ds" and r: "not_numeric r"
  shows "parseFloat (ds @ r) = Finite False (of_nat (digits_val ds))"
proof -
  obtain d ds' where dd: "ds = d # ds'" using ds(1) by (cases ds) auto
  have d: "is_digit d" using ds(2) dd by simp
  then have nsp: "\<not> is_space d" by (rule digit_not_space)
  have dne: "d \<noteq> 0x2D" "d \<noteq> 0x2B" "d \<noteq> 0x49"
    using d by (auto simp: is_digit_def)
  have inf: "take 8 (ds @ r) \<noteq> lit ''Infinity''"
    using dne dd by (auto simp: lit_def)
  have tw: "takeWhile is_digit (ds @ r) = ds"
    using ds(2) r by (cases r) (auto simp: takeWhile_append list_all_iff not_numeric_def)
  have dw: "dropWhile is_digit (ds @ r) = r"
    using ds(2) r by (cases r) (auto simp: dropWhile_append list_all_iff not_numeric_def)
  have fr: "(case r of [] \<Rightarrow> ([], r)
             | c # r' \<Rightarrow> if c = 0x2E then (takeWhile is_digit r', dropWhile is_digit r')
                         else ([], r)) = ([], r)"
    using r by (cases r) (auto simp: not_numeric_def)
  have ex: "exponent_part r = None"
    using r by (cases r) (auto simp: not_numeric_def exponent_part_def)
  have "unsigned_literal False (ds @ r) = Finite False (of_nat (digits_val ds))"
    unfolding unsigned_literal_def
    by (simp only: inf if_False tw dw fr Let_def prod.case ex option.case)
       (simp add: scale10_def ds(1))
  moreover have "signed_literal (ds @ r) = unsigned_literal False (ds @ r)"
    using dne dd by (simp add: signed_literal_def)
  moreover have "dropWhile is_space (ds @ r) = ds @ r"
    using nsp dd by simp
  ultimately show ?thesis by (simp add: parseFloat_def)
qed

lemma form_validate_Valid_iff:
  "form_validate pg = Valid v \<longleftrightarrow>
     spec_first_failure pg = None \<and> v = spread_with (stored pg) (spec_step1_fields pg)"
proof (cases "spec_first_failure pg")
  case None
  then show ?thesis by (auto simp: form_validate_spec)
next
  case (Some r)
  obtain m c where "rule_error (getSelectedChipType (chipTypeButtons pg)) r = Invalid m c"
    using rule_error_Invalid by blast
  then show ?thesis using Some by (simp add: form_validate_spec)
qed

lemma trim_nonempty: "c \<in> set s \<Longrightarrow> \<not> is_space c \<Longrightarrow> trim s \<noteq> []"
  using mem_trim by fastforce

lemma rules_netWeight_cong:
  assumes "(trim nw = []) = (trim (netWeightInput pg) = [])"
    and "parseFloat nw = parseFloat (netWeightInput pg)"
  shows "map snd (spec_step1_rules (pg\<lparr>netWeightInput := nw\<rparr>)) = map snd (spec_step1_rules pg)"
    "map fst (spec_step1_rules (pg\<lparr>netWeightInput := nw\<rparr>)) = map fst (spec_step1_rules pg)"
  using assms parseFloat_trim[of nw] parseFloat_trim[of "netWeightInput pg"]
  by (simp_all add: spec_step1_rules_def spec_variant_class_def spec_variant_value_def Let_def)

lemma first_failure_netWeight_cong:
  assumes "(trim nw = []) = (trim (netWeightInput pg) = [])"
    and "parseFloat nw = parseFloat (netWeightInput pg)"
  shows "spec_first_failure (pg\<lparr>netWeightInput := nw\<rparr>) = spec_first_failure pg"
proof -
  let ?X' = "spec_step1_rules (pg\<lparr>netWeightInput := nw\<rparr>)" and ?X = "spec_step1_rules pg"
  have "?X' = zip (map fst ?X') (map snd ?X')" by (simp only: zip_map_fst_snd)
  also have "\<dots> = zip (map fst ?X) (map snd ?X)"
    by (simp only: rules_netWeight_cong[OF assms])
  also have "\<dots> = ?X" by (simp only: zip_map_fst_snd)
  finally show ?thesis by (simp only: spec_first_failure_def)
qed

lemma app_form_validate_Valid:
  assumes "app_form_validate apg = Valid v"
  shows "isFinite (parseFloat (app_netWeightInput apg))"
    "\<not> le_zero (parseFloat (app_netWeightInput apg))"
    "get_prop v (lit ''netWeight'') = Some (JStr (trim (app_netWeightInput apg)))"
proof -
  have "isFinite (parseFloat (trim (app_netWeightInput apg))) \<and>
        \<not> le_zero (parseFloat (trim (app_netWeightInput apg))) \<and>
        v = spread_with (app_stored apg)
              [(lit ''boxNumber'', JStr (trim (boxInput apg))),
               (lit ''product'', JStr (app_productSelect apg)),
               (lit ''netWeight'', JStr (trim (app_netWeightInput apg))),
               (lit ''operatorName'', JStr (trim (app_operatorInput apg)))]"
    using assms unfolding app_form_validate_def Let_def normalizeText_trim
    by (simp split: if_splits)
  then show "isFinite (parseFloat (app_netWeightInput apg))"
    "\<not> le_zero (parseFloat (app_netWeightInput apg))"
    "get_prop v (lit ''netWeight'') = Some (JStr (trim (app_netWeightInput apg)))"
    by (simp_all add: parseFloat_trim get_prop_spread_with lit_def)
qed

lemma sample_values:
  "trim (lit ''A1B2'') = lit ''A1B2''" "trim (lit ''12abc'') = lit ''12abc''"
  "trim (lit ''3.5kg'') = lit ''3.5kg''" "trim (lit ''Jane Doe'') = lit ''Jane Doe''"
  "re_alnum_test (lit ''A1B2'')"
  "parseFloat (lit ''12abc'') = Finite False 12" "parseFloat (lit ''3.5kg'') = Finite False (7 / 2)"
  "length (operatorParts_of (lit ''Jane Doe'')) = 2"
  "lit ''A1B2'' \<noteq> []" "lit ''Resin-X'' \<noteq> []" "lit ''12abc'' \<noteq> []" "lit ''3.5kg'' \<noteq> []"
  by (simp_all add: trim_def char_defs re_alnum_test_def num_defs operatorParts_of_def
      split_ws.simps Let_def)

lemma sample_weights:
  "\<not> rounds_to_infinity 12" "\<not> rounds_to_zero 12"
  "\<not> rounds_to_infinity (7 / 2)" "\<not> rounds_to_zero (7 / 2)"
  by (simp_all add: rounds_to_zero_def rounds_to_infinity_def)

lemma app_12abc:
  "app_form_validate (app_scenario_A\<lparr>app_netWeightInput := lit ''12abc''\<rparr>) =
     Valid (JObj [(lit ''boxNumber'', JStr (lit ''A1B2'')), (lit ''product'', JStr (lit ''Resin-X'')),
                  (lit ''netWeight'', JStr (lit ''12abc'')), (lit ''operatorName'', JStr (lit ''Jane Doe''))])"
proof -
  have "spread_with (JObj [])
          [(lit ''boxNumber'', JStr (lit ''A1B2'')), (lit ''product'', JStr (lit ''Resin-X'')),
           (lit ''netWeight'', JStr (lit ''12abc'')), (lit ''operatorName'', JStr (lit ''Jane Doe''))] =
        JObj [(lit ''boxNumber'', JStr (lit ''A1B2'')), (lit ''product'', JStr (lit ''Resin-X'')),
              (lit ''netWeight'', JStr (lit ''12abc'')), (lit ''operatorName'', JStr (lit ''Jane Doe''))]"
    by (simp add: spread_with_def lit_def)
  then show ?thesis
    unfolding app_form_validate_def app_scenario_A_def Let_def normalizeText_trim
    by (simp add: sample_values sample_weights)
qed

lemma app_35kg:
  "app_form_validate (app_scenario_A\<lparr>app_netWeightInput := lit ''3.5kg''\<rparr>) =
     Valid (JObj [(lit ''boxNumber'', JStr (lit ''A1B2'')), (lit ''product'', JStr (lit ''Resin-X'')),
                  (lit ''netWeight'', JStr (lit ''3.5kg'')), (lit ''operatorName'', JStr (lit ''Jane Doe''))])"
proof -
  have "spread_with (JObj [])
          [(lit ''boxNumber'', JStr (lit ''A1B2'')), (lit ''product'', JStr (lit ''Resin-X'')),
           (lit ''netWeight'', JStr (lit ''3.5kg'')), (lit ''operatorName'', JStr (lit ''Jane Doe''))] =
        JObj [(lit ''boxNumber'', JStr (lit ''A1B2'')), (lit ''product'', JStr (lit ''Resin-X'')),
              (lit ''netWeight'', JStr (lit ''3.5kg'')), (lit ''operatorName'', JStr (lit ''Jane Doe''))]"
    by (simp add: spread_with_def lit_def)
  then show ?thesis
    unfolding app_form_validate_def app_scenario_A_def Let_def normalizeText_trim
    by (simp add: sample_values sample_weights)
qed

lemma form_12abc: "spec_first_failure (scenario_A\<lparr>netWeightInput := lit ''12abc''\<rparr>) = None"
  by (simp add: spec_first_failure_def spec_step1_rules_def spec_variant_value_def
      spec_variant_class_def scenario_A_def getSelectedChipType_def sample_values sample_weights
      lit_distinct Let_def)
     (simp add: char_defs)

lemma form_35kg: "spec_first_failure (scenario_A\<lparr>netWeightInput := lit ''3.5kg''\<rparr>) = None"
  by (simp add: spec_first_failure_def spec_step1_rules_def spec_variant_value_def
      spec_variant_class_def scenario_A_def getSelectedChipType_def sample_values sample_weights
      lit_distinct Let_def)
     (simp add: char_defs)

lemma form_accepts_weight:
  assumes "getSelectedChipType (chipTypeButtons pg) \<noteq> []"
    and "chip_boxNumber (getSelectedChipType (chipTypeButtons pg)) (trim (chipBoxInput pg))
           (trim (chipBulkInput pg)) (chipPurchasedSelect pg) = Inr b"
    and "productSelect pg \<noteq> []"
    and "2 \<le> length (operatorParts_of (trim (operatorInput pg)))"
    and "trim w \<noteq> []" "isFinite (parseFloat (trim w))" "\<not> le_zero (parseFloat (trim w))"
  shows "\<exists>v. form_validate (pg\<lparr>netWeightInput := w\<rparr>) = Valid v \<and>
             get_prop v (lit ''netWeight'') = Some (JStr (trim w)) \<and>
             form_submit nf (pg\<lparr>netWeightInput := w\<rparr>) ls =
               \<lparr>page_of = pg\<lparr>netWeightInput := w, errorElement := setMessage (errorElement pg) []\<rparr>,
                storage_of = setStoredData nf v ls, navigated = Some ''destination.html''\<rparr>"
proof -
  let ?v = "spread_with (stored pg)
                       [(lit ''chipType'', JStr (getSelectedChipType (chipTypeButtons pg))),
                        (lit ''chipBoxNumber'', JStr (trim (chipBoxInput pg))),
                        (lit ''chipBulkSilo'', JStr (trim (chipBulkInput pg))),
                        (lit ''chipPurchased'', JStr (chipPurchasedSelect pg)),
                        (lit ''boxNumber'', JStr b),
                        (lit ''product'', JStr (productSelect pg)),
                        (lit ''netWeight'', JStr (trim w)),
                        (lit ''operatorName'', JStr (trim (operatorInput pg)))]"
  have v: "form_validate (pg\<lparr>netWeightInput := w\<rparr>) = Valid ?v"
    unfolding form_validate_def Let_def normalizeText_trim
    using assms by simp
  have g: "get_prop ?v (lit ''netWeight'') = Some (JStr (trim w))"
    by (simp add: get_prop_spread_with lit_def)
  have s: "form_submit nf (pg\<lparr>netWeightInput := w\<rparr>) ls =
               \<lparr>page_of = pg\<lparr>netWeightInput := w, errorElement := setMessage (errorElement pg) []\<rparr>,
                storage_of = setStoredData nf ?v ls, navigated = Some ''destination.html''\<rparr>"
    by (simp add: form_submit_def v)
  show ?thesis using v g s by blast
qed

lemma app_form_accepts_weight:
  assumes "trim (boxInput apg) \<noteq> []" "re_alnum_test (trim (boxInput apg))"
    and "app_productSelect apg \<noteq> []"
    and "2 \<le> length (operatorParts_of (trim (app_operatorInput apg)))"
    and "trim w \<noteq> []" "isFinite (parseFloat (trim w))" "\<not> le_zero (parseFloat (trim w))"
  shows "\<exists>v. app_form_validate (apg\<lparr>app_netWeightInput := w\<rparr>) = Valid v \<and>
             get_prop v (lit ''netWeight'') = Some (JStr (trim w)) \<and>
             app_form_submit nf (apg\<lparr>app_netWeightInput := w\<rparr>) ls =
               \<lparr>page_of = apg\<lparr>app_netWeightInput := w,
                               app_errorElement := setMessage (app_errorElement apg) []\<rparr>,
                storage_of = setStoredData nf v ls, navigated = Some ''destination.html''\<rparr>"
proof -
  let ?v = "spread_with (app_stored apg)
                [(lit ''boxNumber'', JStr (trim (boxInput apg))),
                 (lit ''product'', JStr (app_productSelect apg)),
                 (lit ''netWeight'', JStr (trim w)),
                 (lit ''operatorName'', JStr (trim (app_operatorInput apg)))]"
  have v: "app_form_validate (apg\<lparr>app_netWeightInput := w\<rparr>) = Valid ?v"
    unfolding app_form_validate_def Let_def normalizeText_trim
    using assms by simp
  have g: "get_prop ?v (lit ''netWeight'') = Some (JStr (trim w))"
    by (simp add: get_prop_spread_with lit_def)
  have s: "app_form_submit nf (apg\<lparr>app_netWeightInput := w\<rparr>) ls =
               \<lparr>page_of = apg\<lparr>app_netWeightInput := w,
                               app_errorElement := setMessage (app_errorElement apg) []\<rparr>,
                storage_of = setStoredData nf ?v ls, navigated = Some ''destination.html''\<rparr>"
    by (simp add: app_form_submit_def v)
  show ?thesis using v g s by blast
qed

lemma more_weights:
  "parseFloat (lit ''+12abc'') = Finite False 12"
  "parseFloat (lit ''.5kg'') = Finite False (1 / 2)"
  "parseFloat (lit ''1e3x'') = Finite False 1000"
  "parseFloat (lit ''12.5 kg'') = Finite False (25 / 2)"
  by (simp_all add: char_defs num_defs)

lemma scenario_A_others:
  "getSelectedChipType (chipTypeButtons scenario_A) = lit ''box''"
  "chip_boxNumber (lit ''box'') (trim (chipBoxInput scenario_A))
           (trim (chipBulkInput scenario_A)) (chipPurchasedSelect scenario_A) = Inr (lit ''A1B2'')"
  "productSelect scenario_A \<noteq> []"
  "2 \<le> length (operatorParts_of (trim (operatorInput scenario_A)))"
  "trim (boxInput app_scenario_A) \<noteq> []" "re_alnum_test (trim (boxInput app_scenario_A))"
  "app_productSelect app_scenario_A \<noteq> []"
  "2 \<le> length (operatorParts_of (trim (app_operatorInput app_scenario_A)))"
  by (simp_all add: scenario_A_def app_scenario_A_def getSelectedChipType_def chip_boxNumber_def
      sample_values lit_distinct)

text \<open>
  C10. The net-weight check reads the trimmed text with \<^verbatim>\<open>Number.parseFloat\<close> and asks for
  nothing else of it: on either form page, whenever the other checks pass, any text
  that is not blank and whose \<^verbatim>\<open>parseFloat\<close> value is finite and above zero is accepted,
  the browser goes to the destination page and the trimmed text is stored as
  \<^verbatim>\<open>netWeight\<close> as it is; and whenever a page accepts a submission, the net weight parses
  to a finite number above zero and is stored trimmed. A run of digits followed by text
  that cannot continue the literal parses to the value of the digits alone, so a page
  that passes with the digits passes with the longer text too. On both pages \<^verbatim>\<open>12abc\<close>
  and \<^verbatim>\<open>3.5kg\<close> are accepted and stored verbatim; \<^verbatim>\<open>+12abc\<close>, \<^verbatim>\<open>.5kg\<close>, \<^verbatim>\<open>1e3x\<close> and
  \<^verbatim>\<open>12.5 kg\<close> parse to 12, 0.5, 1000 and 12.5.
\<close>

theorem net_weight_prefix_accepted:
  "(getSelectedChipType (chipTypeButtons pg) \<noteq> [] \<and>
    chip_boxNumber (getSelectedChipType (chipTypeButtons pg)) (trim (chipBoxInput pg))
      (trim (chipBulkInput pg)) (chipPurchasedSelect pg) = Inr b \<and>
    productSelect pg \<noteq> [] \<and> 2 \<le> length (operatorParts_of (trim (operatorInput pg))) \<and>
    trim w \<noteq> [] \<and> isFinite (parseFloat (trim w)) \<and> \<not> le_zero (parseFloat (trim w)) \<longrightarrow>
      (\<exists>v. form_validate (pg\<lparr>netWeightInput := w\<rparr>) = Valid v \<and>
           get_prop v (lit ''netWeight'') = Some (JStr (trim w)) \<and>
           form_submit nf (pg\<lparr>netWeightInput := w\<rparr>) ls =
             \<lparr>page_of = pg\<lparr>netWeightInput := w,
                            errorElement := setMessage (errorElement pg) []\<rparr>,
              storage_of = setStoredData nf v ls, navigated = Some ''destination.html''\<rparr>)) \<and>
   (trim (boxInput apg) \<noteq> [] \<and> re_alnum_test (trim (boxInput apg)) \<and>
    app_productSelect apg \<noteq> [] \<and>
    2 \<le> length (operatorParts_of (trim (app_operatorInput apg))) \<and>
    trim w \<noteq> [] \<and> isFinite (parseFloat (trim w)) \<and> \<not> le_zero (parseFloat (trim w)) \<longrightarrow>
      (\<exists>v. app_form_validate (apg\<lparr>app_netWeightInput := w\<rparr>) = Valid v \<and>
           get_prop v (lit ''netWeight'') = Some (JStr (trim w)) \<and>
           app_form_submit nf (apg\<lparr>app_netWeightInput := w\<rparr>) ls =
             \<lparr>page_of = apg\<lparr>app_netWeightInput := w,
                             app_errorElement := setMessage (app_errorElement apg) []\<rparr>,
              storage_of = setStoredData nf v ls, navigated = Some ''destination.html''\<rparr>)) \<and>
   (ds \<noteq> [] \<and> list_all is_digit ds \<and> not_numeric r \<longrightarrow>
      parseFloat (ds @ r) = parseFloat ds) \<and>
   (ds \<noteq> [] \<and> list_all is_digit ds \<and> not_numeric r \<and>
    (\<exists>v. form_validate (pg\<lparr>netWeightInput := ds\<rparr>) = Valid v) \<longrightarrow>
      (\<exists>v. form_validate (pg\<lparr>netWeightInput := ds @ r\<rparr>) = Valid v \<and>
           get_prop v (lit ''netWeight'') = Some (JStr (trim (ds @ r))))) \<and>
   (\<forall>v. form_validate pg = Valid v \<longrightarrow>
      isFinite (parseFloat (netWeightInput pg)) \<and> \<not> le_zero (parseFloat (netWeightInput pg)) \<and>
      get_prop v (lit ''netWeight'') = Some (JStr (trim (netWeightInput pg)))) \<and>
   (\<forall>v. app_form_validate apg = Valid v \<longrightarrow>
      isFinite (parseFloat (app_netWeightInput apg)) \<and>
      \<not> le_zero (parseFloat (app_netWeightInput apg)) \<and>
      get_prop v (lit ''netWeight'') = Some (JStr (trim (app_netWeightInput apg)))) \<and>
   parseFloat (trim w) = parseFloat w \<and>
   (\<exists>v. form_validate (scenario_A\<lparr>netWeightInput := lit ''12abc''\<rparr>) = Valid v \<and>
        get_prop v (lit ''netWeight'') = Some (JStr (lit ''12abc''))) \<and>
   (\<exists>v. form_validate (scenario_A\<lparr>netWeightInput := lit ''3.5kg''\<rparr>) = Valid v \<and>
        get_prop v (lit ''netWeight'') = Some (JStr (lit ''3.5kg''))) \<and>
   (\<exists>v. app_form_validate (app_scenario_A\<lparr>app_netWeightInput := lit ''12abc''\<rparr>) = Valid v \<and>
        get_prop v (lit ''netWeight'') = Some (JStr (lit ''12abc''))) \<and>
   (\<exists>v. app_form_validate (app_scenario_A\<lparr>app_netWeightInput := lit ''3.5kg''\<rparr>) = Valid v \<and>
        get_prop v (lit ''netWeight'') = Some (JStr (lit ''3.5kg''))) \<and>
   parseFloat (lit ''+12abc'') = Finite False 12 \<and>
   parseFloat (lit ''.5kg'') = Finite False (1 / 2) \<and>
   parseFloat (lit ''1e3x'') = Finite False 1000 \<and>
   parseFloat (lit ''12.5 kg'') = Finite False (25 / 2)"
proof (intro conjI impI allI)
  assume "getSelectedChipType (chipTypeButtons pg) \<noteq> [] \<and>
    chip_boxNumber (getSelectedChipType (chipTypeButtons pg)) (trim (chipBoxInput pg))
      (trim (chipBulkInput pg)) (chipPurchasedSelect pg) = Inr b \<and>
    productSelect pg \<noteq> [] \<and> 2 \<le> length (operatorParts_of (trim (operatorInput pg))) \<and>
    trim w \<noteq> [] \<and> isFinite (parseFloat (trim w)) \<and> \<not> le_zero (parseFloat (trim w))"
  then show "\<exists>v. form_validate (pg\<lparr>netWeightInput := w\<rparr>) = Valid v \<and>
           get_prop v (lit ''netWeight'') = Some (JStr (trim w)) \<and>
           form_submit nf (pg\<lparr>netWeightInput := w\<rparr>) ls =
             \<lparr>page_of = pg\<lparr>netWeightInput := w,
                            errorElement := setMessage (errorElement pg) []\<rparr>,
              storage_of = setStoredData nf v ls, navigated = Some ''destination.html''\<rparr>"
    by (intro form_accepts_weight) simp_all
next
  assume "trim (boxInput apg) \<noteq> [] \<and> re_alnum_test (trim (boxInput apg)) \<and>
    app_productSelect apg \<noteq> [] \<and>
    2 \<le> length (operatorParts_of (trim (app_operatorInput apg))) \<and>
    trim w \<noteq> [] \<and> isFinite (parseFloat (trim w)) \<and> \<not> le_zero (parseFloat (trim w))"
  then show "\<exists>v. app_form_validate (apg\<lparr>app_netWeightInput := w\<rparr>) = Valid v \<and>
           get_prop v (lit ''netWeight'') = Some (JStr (trim w)) \<and>
           app_form_submit nf (apg\<lparr>app_netWeightInput := w\<rparr>) ls =
             \<lparr>page_of = apg\<lparr>app_netWeightInput := w,
                             app_errorElement := setMessage (app_errorElement apg) []\<rparr>,
              storage_of = setStoredData nf v ls, navigated = Some ''destination.html''\<rparr>"
    by (intro app_form_accepts_weight) simp_all
next
  assume a: "ds \<noteq> [] \<and> list_all is_digit ds \<and> not_numeric r"
  then have "parseFloat (ds @ r) = Finite False (of_nat (digits_val ds))"
    by (simp add: digits_prefix_parse)
  moreover have "parseFloat (ds @ []) = Finite False (of_nat (digits_val ds))"
    using a by (intro digits_prefix_parse) (simp_all add: not_numeric_def)
  ultimately show "parseFloat (ds @ r) = parseFloat ds" by simp
next
  assume a: "ds \<noteq> [] \<and> list_all is_digit ds \<and> not_numeric r \<and>
    (\<exists>v. form_validate (pg\<lparr>netWeightInput := ds\<rparr>) = Valid v)"
  then obtain d ds' where dd: "ds = d # ds'" by (cases ds) auto
  have d: "\<not> is_space d" using a dd by (simp add: digit_not_space)
  have p1: "parseFloat (ds @ r) = Finite False (of_nat (digits_val ds))"
    using a by (simp add: digits_prefix_parse)
  have p2: "parseFloat (ds @ []) = Finite False (of_nat (digits_val ds))"
    using a by (intro digits_prefix_parse) (simp_all add: not_numeric_def)
  have t1: "trim (ds @ r) \<noteq> []" using trim_nonempty[of d "ds @ r"] d dd by simp
  have t2: "trim ds \<noteq> []" using trim_nonempty[of d ds] d dd by simp
  let ?pg0 = "pg\<lparr>netWeightInput := ds\<rparr>"
  have "spec_first_failure (?pg0\<lparr>netWeightInput := ds @ r\<rparr>) = spec_first_failure ?pg0"
    using p1 p2 t1 t2 by (intro first_failure_netWeight_cong) simp_all
  moreover have "spec_first_failure ?pg0 = None"
    using a by (auto simp: form_validate_Valid_iff)
  ultimately have "spec_first_failure (pg\<lparr>netWeightInput := ds @ r\<rparr>) = None" by simp
  then have "form_validate (pg\<lparr>netWeightInput := ds @ r\<rparr>) =
      Valid (spread_with (stored (pg\<lparr>netWeightInput := ds @ r\<rparr>))
               (spec_step1_fields (pg\<lparr>netWeightInput := ds @ r\<rparr>)))"
    by (simp add: form_validate_spec)
  moreover have "get_prop (spread_with (stored (pg\<lparr>netWeightInput := ds @ r\<rparr>))
               (spec_step1_fields (pg\<lparr>netWeightInput := ds @ r\<rparr>))) (lit ''netWeight'') =
      Some (JStr (trim (ds @ r)))"
    by (simp add: step1_fields_stored)
  ultimately show "\<exists>v. form_validate (pg\<lparr>netWeightInput := ds @ r\<rparr>) = Valid v \<and>
           get_prop v (lit ''netWeight'') = Some (JStr (trim (ds @ r)))"
    by blast
next
  fix v assume v: "form_validate pg = Valid v"
  have n: "spec_first_failure pg = None"
    using v by (simp add: form_validate_Valid_iff)
  then have "\<forall>rb\<in>set (spec_step1_rules pg). snd rb" by (simp add: spec_first_failure_None)
  then have "isFinite (parseFloat (trim (netWeightInput pg))) \<and>
             \<not> le_zero (parseFloat (trim (netWeightInput pg)))"
    by (simp add: spec_step1_rules_def)
  then show "isFinite (parseFloat (netWeightInput pg))" "\<not> le_zero (parseFloat (netWeightInput pg))"
    by (simp_all add: parseFloat_trim)
  have "v = spread_with (stored pg) (spec_step1_fields pg)"
    using v n by (simp add: form_validate_spec)
  then show "get_prop v (lit ''netWeight'') = Some (JStr (trim (netWeightInput pg)))"
    by (simp add: step1_fields_stored)
next
  fix v assume v: "app_form_validate apg = Valid v"
  show "isFinite (parseFloat (app_netWeightInput apg))"
    "\<not> le_zero (parseFloat (app_netWeightInput apg))"
    "get_prop v (lit ''netWeight'') = Some (JStr (trim (app_netWeightInput apg)))"
    using app_form_validate_Valid[OF v] by blast+
next
  show "parseFloat (trim w) = parseFloat w" by (rule parseFloat_trim)
next
  show "\<exists>v. form_validate (scenario_A\<lparr>netWeightInput := lit ''12abc''\<rparr>) = Valid v \<and>
        get_prop v (lit ''netWeight'') = Some (JStr (lit ''12abc''))"
    using form_12abc by (simp add: form_validate_spec step1_fields_stored sample_values)
  show "\<exists>v. form_validate (scenario_A\<lparr>netWeightInput := lit ''3.5kg''\<rparr>) = Valid v \<and>
        get_prop v (lit ''netWeight'') = Some (JStr (lit ''3.5kg''))"
    using form_35kg by (simp add: form_validate_spec step1_fields_stored sample_values)
  show "\<exists>v. app_form_validate (app_scenario_A\<lparr>app_netWeightInput := lit ''12abc''\<rparr>) = Valid v \<and>
        get_prop v (lit ''netWeight'') = Some (JStr (lit ''12abc''))"
    by (rule exI, rule conjI, rule app_12abc) (simp add: lit_def)
  show "\<exists>v. app_form_validate (app_scenario_A\<lparr>app_netWeightInput := lit ''3.5kg''\<rparr>) = Valid v \<and>
        get_prop v (lit ''netWeight'') = Some (JStr (lit ''3.5kg''))"
    by (rule exI, rule conjI, rule app_35kg) (simp add: lit_def)
next
  show "parseFloat (lit ''+12abc'') = Finite False 12"
    "parseFloat (lit ''.5kg'') = Finite False (1 / 2)"
    "parseFloat (lit ''1e3x'') = Finite False 1000"
    "parseFloat (lit ''12.5 kg'') = Finite False (25 / 2)"
    by (rule more_weights)+
qed

theorem net_weight_prefix_accepted_witness:
  "getSelectedChipType (chipTypeButtons scenario_A) \<noteq> [] \<and>
   chip_boxNumber (getSelectedChipType (chipTypeButtons scenario_A)) (trim (chipBoxInput scenario_A))
      (trim (chipBulkInput scenario_A)) (chipPurchasedSelect scenario_A) = Inr (lit ''A1B2'') \<and>
   productSelect scenario_A \<noteq> [] \<and>
   2 \<le> length (operatorParts_of (trim (operatorInput scenario_A))) \<and>
   trim (lit ''3.5kg'') \<noteq> [] \<and> isFinite (parseFloat (trim (lit ''3.5kg''))) \<and>
   \<not> le_zero (parseFloat (trim (lit ''3.5kg''))) \<and>
   navigated (form_submit no_numbers (scenario_A\<lparr>netWeightInput := lit ''3.5kg''\<rparr>) None) =
     Some ''destination.html'' \<and>
   navigated (app_form_submit no_numbers (app_scenario_A\<lparr>app_netWeightInput := lit ''3.5kg''\<rparr>) None) =
     Some ''destination.html'' \<and>
   lit ''12'' \<noteq> [] \<and> list_all is_digit (lit ''12'') \<and> not_numeric (lit ''abc'') \<and>
   (\<exists>v. form_validate (scenario_A\<lparr>netWeightInput := lit ''12''\<rparr>) = Valid v) \<and>
   parseFloat (lit ''12'' @ lit ''abc'') = parseFloat (lit ''12'') \<and>
   (\<exists>v. form_validate (scenario_A\<lparr>netWeightInput := lit ''12'' @ lit ''abc''\<rparr>) = Valid v \<and>
        get_prop v (lit ''netWeight'') = Some (JStr (trim (lit ''12'' @ lit ''abc'')))) \<and>
   (\<exists>v. app_form_validate (app_scenario_A\<lparr>app_netWeightInput := lit ''3.5kg''\<rparr>) = Valid v) \<and>
   isFinite (parseFloat (app_netWeightInput (app_scenario_A\<lparr>app_netWeightInput := lit ''3.5kg''\<rparr>)))"
proof -
  have a: "lit ''12'' \<noteq> [] \<and> list_all is_digit (lit ''12'') \<and> not_numeric (lit ''abc'')"
    by (simp add: char_defs not_numeric_def)
  have b: "spec_first_failure (scenario_A\<lparr>netWeightInput := lit ''12''\<rparr>) = None"
    by (simp add: page_eval)
  have c: "\<exists>v. form_validate (scenario_A\<lparr>netWeightInput := lit ''12''\<rparr>) = Valid v"
    using b by (simp add: form_validate_spec)
  have d: "\<exists>v. app_form_validate (app_scenario_A\<lparr>app_netWeightInput := lit ''3.5kg''\<rparr>) = Valid v"
    by (simp add: app_35kg)
  have e: "getSelectedChipType (chipTypeButtons scenario_A) \<noteq> []"
    "chip_boxNumber (getSelectedChipType (chipTypeButtons scenario_A)) (trim (chipBoxInput scenario_A))
      (trim (chipBulkInput scenario_A)) (chipPurchasedSelect scenario_A) = Inr (lit ''A1B2'')"
    "productSelect scenario_A \<noteq> []"
    "2 \<le> length (operatorParts_of (trim (operatorInput scenario_A)))"
    by (simp_all add: scenario_A_others lit_distinct)
  have f: "trim (lit ''3.5kg'') \<noteq> []" "isFinite (parseFloat (trim (lit ''3.5kg'')))"
    "\<not> le_zero (parseFloat (trim (lit ''3.5kg'')))"
    by (simp_all add: sample_values sample_weights)
  have g: "trim (boxInput (app_scenario_A\<lparr>app_netWeightInput := lit ''3.5kg''\<rparr>)) \<noteq> []"
    "re_alnum_test (trim (boxInput (app_scenario_A\<lparr>app_netWeightInput := lit ''3.5kg''\<rparr>)))"
    "app_productSelect (app_scenario_A\<lparr>app_netWeightInput := lit ''3.5kg''\<rparr>) \<noteq> []"
    "2 \<le> length (operatorParts_of (trim (app_operatorInput
            (app_scenario_A\<lparr>app_netWeightInput := lit ''3.5kg''\<rparr>))))"
    using scenario_A_others(5-8) by simp_all
  from net_weight_prefix_accepted [of scenario_A "lit ''A1B2''" "lit ''3.5kg''" no_numbers None
        "app_scenario_A\<lparr>app_netWeightInput := lit ''3.5kg''\<rparr>" "lit ''12''" "lit ''abc''"]
  have "(\<exists>v. form_submit no_numbers (scenario_A\<lparr>netWeightInput := lit ''3.5kg''\<rparr>) None =
             \<lparr>page_of = scenario_A\<lparr>netWeightInput := lit ''3.5kg'',
                            errorElement := setMessage (errorElement scenario_A) []\<rparr>,
              storage_of = setStoredData no_numbers v None, navigated = Some ''destination.html''\<rparr>) \<and>
        (\<exists>v. app_form_submit no_numbers (app_scenario_A\<lparr>app_netWeightInput := lit ''3.5kg''\<rparr>) None =
             \<lparr>page_of = app_scenario_A\<lparr>app_netWeightInput := lit ''3.5kg'',
                             app_errorElement := setMessage (app_errorElement app_scenario_A) []\<rparr>,
              storage_of = setStoredData no_numbers v None, navigated = Some ''destination.html''\<rparr>) \<and>
        parseFloat (lit ''12'' @ lit ''abc'') = parseFloat (lit ''12'') \<and>
        (\<exists>v. form_validate (scenario_A\<lparr>netWeightInput := lit ''12'' @ lit ''abc''\<rparr>) = Valid v \<and>
           get_prop v (lit ''netWeight'') = Some (JStr (trim (lit ''12'' @ lit ''abc'')))) \<and>
        isFinite (parseFloat (app_netWeightInput (app_scenario_A\<lparr>app_netWeightInput := lit ''3.5kg''\<rparr>)))"
    using a c d e f g by (simp (no_asm_use)) blast
  then show ?thesis using a c d e f by auto
qed

section \<open>Step 3: submission\<close>

lemmas summary_defs = click_save_def fetch_settled_def timer_fired_def click_back_def
  setStoredData_def clearStoredData_def

lemma submit_guard_step: "submit_guard s \<Longrightarrow> submit_guard (summary_step nf s e)"
proof (cases e)
  case ClickSave
  then show "submit_guard s \<Longrightarrow> ?thesis"
    by (auto simp: submit_guard_def summary_defs)
next
  case (FetchSettled r i sh)
  then show "submit_guard s \<Longrightarrow> ?thesis"
    by (cases r) (auto simp: submit_guard_def summary_defs)
next
  case TimerFired
  then show "submit_guard s \<Longrightarrow> ?thesis"
    by (auto simp: submit_guard_def summary_defs)
next
  case ClickBack
  then show "submit_guard s \<Longrightarrow> ?thesis"
    by (auto simp: submit_guard_def summary_defs)
qed

lemma submit_guard_run: "submit_guard s \<Longrightarrow> submit_guard (summary_run nf s es)"
  unfolding summary_run_def
  by (induction es arbitrary: s) (simp_all add: submit_guard_step del: summary_step.simps)

lemma submit_guard_init:
  "initSummaryPage m ls = Rendered s \<Longrightarrow> submit_guard s"
  by (auto simp: initSummaryPage_def Let_def submit_guard_def step1_incomplete_def
      getStoredData_None split: if_splits)

lemma init_fields:
  "initSummaryPage m ls = Rendered s \<Longrightarrow>
     pending s = 0 \<and> redirectTimer s = None \<and> \<not> saveButton_disabled s \<and> requests s = [] \<and>
     location s = ''summary.html'' \<and> sum_storage s = ls \<and> sum_stored s = getStoredData ls"
  by (auto simp: initSummaryPage_def Let_def split: if_splits)

text \<open>
  C4. After any sequence of events on a summary page that was entered: at most one
  request is pending; while one is pending, and while the redirect timer is armed after
  a success, the save button is disabled; a click on the disabled button changes
  nothing, so it sends no request; when the pending request settles, the button stays
  disabled on success and is enabled on a response that is not ok and on a rejected
  \<^verbatim>\<open>fetch\<close>; and no other event enables a disabled button.
\<close>

theorem submit_reentrancy_guard:
  assumes "initSummaryPage m ls = Rendered s0" and "s = summary_run nf s0 es"
  shows "pending s \<le> 1 \<and>
         (pending s = 1 \<longrightarrow> saveButton_disabled s) \<and>
         (redirectTimer s \<noteq> None \<longrightarrow> saveButton_disabled s) \<and>
         (saveButton_disabled s \<longrightarrow> summary_step nf s ClickSave = s) \<and>
         (location s = ''summary.html'' \<and> pending s = 1 \<longrightarrow>
            saveButton_disabled (summary_step nf s (FetchSettled ResponseOk i sh)) \<and>
            \<not> saveButton_disabled (summary_step nf s (FetchSettled ResponseNotOk i sh)) \<and>
            \<not> saveButton_disabled (summary_step nf s (FetchSettled FetchRejected i sh))) \<and>
         (\<forall>e. saveButton_disabled s \<and> \<not> saveButton_disabled (summary_step nf s e) \<longrightarrow>
              (\<exists>i' sh'. e = FetchSettled ResponseNotOk i' sh' \<or> e = FetchSettled FetchRejected i' sh'))"
proof -
  have g: "submit_guard s"
    using assms submit_guard_init submit_guard_run by blast
  have a: "pending s \<le> 1" "pending s = 1 \<longrightarrow> saveButton_disabled s"
    "redirectTimer s \<noteq> None \<longrightarrow> saveButton_disabled s"
    using g by (auto simp: submit_guard_def)
  have b: "saveButton_disabled s \<longrightarrow> summary_step nf s ClickSave = s"
    by (simp add: click_save_def)
  have c: "location s = ''summary.html'' \<and> pending s = 1 \<longrightarrow>
            saveButton_disabled (summary_step nf s (FetchSettled ResponseOk i sh)) \<and>
            \<not> saveButton_disabled (summary_step nf s (FetchSettled ResponseNotOk i sh)) \<and>
            \<not> saveButton_disabled (summary_step nf s (FetchSettled FetchRejected i sh))"
    using a by (simp add: summary_defs)
  have d: "\<exists>i' sh'. e = FetchSettled ResponseNotOk i' sh' \<or> e = FetchSettled FetchRejected i' sh'"
    if "saveButton_disabled s \<and> \<not> saveButton_disabled (summary_step nf s e)" for e
  proof (cases e)
    case (FetchSettled r i' sh')
    then show ?thesis using that by (cases r) (auto simp: summary_defs split: if_splits)
  qed (use that in \<open>auto simp: summary_defs split: if_splits\<close>)
  show ?thesis using a b c d by blast
qed

lemma getStoredData_scenario_A: "getStoredData (Some scenario_A_json) = scenario_A_body"
  unfolding scenario_A_json_def scenario_A_body_def
  by (simp add: store_defs json_defs char_defs parse_numeral cong: weak_congs)

lemma init_scenario_A:
  "initSummaryPage (Some []) (Some scenario_A_json) = Rendered scenario_A_summary"
  unfolding initSummaryPage_def getStoredData_scenario_A
  by (simp add: step1_incomplete_def scenario_A_body_def scenario_A_summary_def lit_def)

lemma run_two_clicks:
  "summary_run no_numbers scenario_A_summary [ClickSave, ClickSave] =
     scenario_A_summary\<lparr>saveButton_disabled := True, pending := 1,
        requests := [save_request_body no_numbers scenario_A_body]\<rparr>"
  by (simp add: summary_run_def click_save_def scenario_A_summary_def setMessage_def)

theorem submit_reentrancy_guard_witness:
  "initSummaryPage (Some []) (Some scenario_A_json) = Rendered scenario_A_summary \<and>
   pending (summary_run no_numbers scenario_A_summary [ClickSave, ClickSave]) = 1 \<and>
   length (requests (summary_run no_numbers scenario_A_summary [ClickSave, ClickSave])) = 1 \<and>
   saveButton_disabled (summary_run no_numbers scenario_A_summary [ClickSave, ClickSave]) \<and>
   summary_step no_numbers (summary_run no_numbers scenario_A_summary [ClickSave, ClickSave]) ClickSave =
     summary_run no_numbers scenario_A_summary [ClickSave, ClickSave]"
  using init_scenario_A
    submit_reentrancy_guard [OF init_scenario_A refl, of no_numbers "[ClickSave, ClickSave]" "[]" "[]"]
  by (simp add: run_two_clicks)

text \<open>
  C5. When a pending submission on the summary page settles with a response that is
  not ok or by rejecting, the browser stays on the summary page, the storage and the
  record are unchanged, the alert \<^verbatim>\<open>Save failed. Please try again.\<close> is shown, the save
  button is enabled, no redirect timer is armed, and the next click sends the request
  again.
\<close>

theorem failed_submission_keeps_state:
  assumes "initSummaryPage m ls = Rendered s0" and "s = summary_run nf s0 es"
    and "location s = ''summary.html''" and "pending s = 1"
    and "r = ResponseNotOk \<or> r = FetchRejected"
  shows "location (summary_step nf s (FetchSettled r i sh)) = ''summary.html'' \<and>
         sum_storage (summary_step nf s (FetchSettled r i sh)) = sum_storage s \<and>
         sum_stored (summary_step nf s (FetchSettled r i sh)) = sum_stored s \<and>
         alerts (summary_step nf s (FetchSettled r i sh)) =
           alerts s @ [''Save failed. Please try again.''] \<and>
         \<not> saveButton_disabled (summary_step nf s (FetchSettled r i sh)) \<and>
         redirectTimer (summary_step nf s (FetchSettled r i sh)) = None \<and>
         pending (summary_step nf s (FetchSettled r i sh)) = 0 \<and>
         requests (summary_step nf (summary_step nf s (FetchSettled r i sh)) ClickSave) =
           requests s @ [save_request_body nf (sum_stored s)]"
proof -
  have g: "submit_guard s"
    using assms submit_guard_init submit_guard_run by blast
  then have t: "redirectTimer s = None" using assms(4) by (simp add: submit_guard_def)
  show ?thesis
    using assms(3-5) t by (auto simp: summary_defs)
qed

lemma run_click:
  "summary_run no_numbers scenario_A_summary [ClickSave] =
     scenario_A_summary\<lparr>saveButton_disabled := True, pending := 1,
        requests := [save_request_body no_numbers scenario_A_body]\<rparr>"
  by (simp add: summary_run_def click_save_def scenario_A_summary_def setMessage_def)

theorem failed_submission_keeps_state_witness:
  "initSummaryPage (Some []) (Some scenario_A_json) = Rendered scenario_A_summary \<and>
   location (summary_run no_numbers scenario_A_summary [ClickSave]) = ''summary.html'' \<and>
   pending (summary_run no_numbers scenario_A_summary [ClickSave]) = 1 \<and>
   sum_storage (summary_step no_numbers (summary_run no_numbers scenario_A_summary [ClickSave])
                  (FetchSettled ResponseNotOk [] [])) = Some scenario_A_json \<and>
   \<not> saveButton_disabled (summary_step no_numbers (summary_run no_numbers scenario_A_summary [ClickSave])
                  (FetchSettled ResponseNotOk [] [])) \<and>
   alerts (summary_step no_numbers (summary_run no_numbers scenario_A_summary [ClickSave])
                  (FetchSettled ResponseNotOk [] [])) = [''Save failed. Please try again.'']"
proof -
  have a: "location (summary_run no_numbers scenario_A_summary [ClickSave]) = ''summary.html''"
    "pending (summary_run no_numbers scenario_A_summary [ClickSave]) = 1"
    "sum_storage (summary_run no_numbers scenario_A_summary [ClickSave]) = Some scenario_A_json"
    "alerts (summary_run no_numbers scenario_A_summary [ClickSave]) = []"
    unfolding run_click by (simp_all add: scenario_A_summary_def)
  show ?thesis
    using init_scenario_A a
      failed_submission_keeps_state [OF init_scenario_A refl a(1) a(2), of ResponseNotOk "[]" "[]"]
    by simp
qed

section \<open>The life of the record\<close>

lemmas quote_defs = QuoteJSONString_def quote_char_def is_high_surrogate_def is_low_surrogate_def
  unicode_escape_def hex_char_def

text \<open>
  C6 as stated fails: on a first visit with nothing stored, a click on the chip-type
  button \<^verbatim>\<open>box\<close> writes \<^verbatim>\<open>{"chipType":"box"}\<close> to the storage, although the page does not
  pass validation and no validation has run.
\<close>

theorem chip_click_writes_store_counterexample:
  \<open>initFormPage blank_form_page None = Some blank_form_page \<and>
   snd (chip_click no_numbers box_button (blank_form_page, None)) = Some (lit ''{"chipType":"box"}'') \<and>
   form_validate (fst (chip_click no_numbers box_button (blank_form_page, None))) =
     Invalid ''Please enter a box number.'' ChipBoxInput\<close>
proof -
  have a: "initFormPage blank_form_page None = Some blank_form_page"
    by (simp add: initFormPage_def blank_form_page_def setSelectedChipType_def getStoredData_None
        lit_def)
  have b: \<open>snd (chip_click no_numbers box_button (blank_form_page, None)) =
           Some (lit ''{"chipType":"box"}'')\<close>
    by (simp add: chip_click_def box_button_def getStoredData_None spread_with_def
        setStoredData_def quote_defs lit_def)
  have c: "spec_first_failure (fst (chip_click no_numbers box_button (blank_form_page, None))) =
           Some VariantPresent"
    by (simp add: chip_click_def box_button_def blank_form_page_def setSelectedChipType_def
        spec_first_failure_def spec_step1_rules_def spec_variant_value_def
        getSelectedChipType_def lit_def)
  have d: "getSelectedChipType (chipTypeButtons (fst (chip_click no_numbers box_button (blank_form_page, None)))) = lit ''box''"
    by (simp add: chip_click_def box_button_def blank_form_page_def setSelectedChipType_def
        getSelectedChipType_def lit_def)
  have "form_validate (fst (chip_click no_numbers box_button (blank_form_page, None))) =
     Invalid ''Please enter a box number.'' ChipBoxInput"
    unfolding form_validate_spec c d by (simp add: rule_error_def)
  then show ?thesis using a b by simp
qed

lemma form_submit_storage:
  "storage_of (form_submit nf pg ls) = ls \<or>
   (\<exists>v. form_validate pg = Valid v \<and> storage_of (form_submit nf pg ls) = setStoredData nf v ls)"
  by (cases "form_validate pg") (simp_all add: form_submit_def)

lemma destination_submit_storage:
  "storage_of (destination_submit nf dp ls) = ls \<or>
   (\<exists>b. find cb_checked (checkboxes dp) = Some b \<and> navigated (destination_submit nf dp ls) = Some ''summary.html'' \<and>
        storage_of (destination_submit nf dp ls) =
          setStoredData nf (spread_with (dest_stored dp) [(lit ''destination'', JStr (cb_value b))]) ls)"
  by (cases "find cb_checked (checkboxes dp)") (simp_all add: destination_submit_def)

lemma chip_click_storage:
  "snd (chip_click nf b (pg, ls)) = ls \<or>
   (\<exists>t. data_chip_type b = Some t \<and> t \<noteq> [] \<and>
        snd (chip_click nf b (pg, ls)) =
          setStoredData nf (spread_with (getStoredData ls) [(lit ''chipType'', JStr t)]) ls)"
  by (cases "data_chip_type b") (simp_all add: chip_click_def)

lemma summary_step_storage:
  "sum_storage (summary_step nf s e) = sum_storage s \<or>
   (\<exists>i sh. e = FetchSettled ResponseOk i sh \<and> pending s \<noteq> 0 \<and>
        sum_storage (summary_step nf s e) =
          setStoredData nf (spread_with (sum_stored s) [(lit ''savedAt'', JStr i)]) (sum_storage s)) \<or>
   (e = TimerFired \<and> redirectTimer s \<noteq> None \<and> sum_storage (summary_step nf s e) = None)"
proof (cases e)
  case (FetchSettled r i sh)
  then show ?thesis by (cases r) (simp_all add: summary_defs)
qed (simp_all add: summary_defs)

lemma success_then_timer:
  assumes "location s = ''summary.html''" and "pending s \<noteq> 0"
  shows "sum_storage (summary_step nf s (FetchSettled ResponseOk i sh)) =
           setStoredData nf (spread_with (sum_stored s) [(lit ''savedAt'', JStr i)]) (sum_storage s)"
    "get_prop (spread_with (sum_stored s) [(lit ''savedAt'', JStr i)]) (lit ''savedAt'') = Some (JStr i)"
    "save_message (summary_step nf s (FetchSettled ResponseOk i sh)) =
           setMessage (save_message s) (''Saved at '' @ sh @ ''. Redirecting to the first page in 3 seconds.'')"
    "alerts (summary_step nf s (FetchSettled ResponseOk i sh)) = alerts s @ [''Saved to Excel.'']"
    "redirectTimer (summary_step nf s (FetchSettled ResponseOk i sh)) = Some 3000"
    "location (summary_step nf s (FetchSettled ResponseOk i sh)) = ''summary.html''"
    "sum_storage (summary_step nf (summary_step nf s (FetchSettled ResponseOk i sh)) TimerFired) = None"
    "location (summary_step nf (summary_step nf s (FetchSettled ResponseOk i sh)) TimerFired) = ''index.html''"
  using assms by (simp_all add: summary_defs get_prop_spread_with)

text \<open>
  C6 as amended. On a first visit to step 1 the record reads as empty. The storage
  is written by a chip-type click (the chip type), by a submit of step 1 or step 2
  whose validation succeeds, and by a final submission that succeeds (\<^verbatim>\<open>savedAt\<close>);
  every other handler run leaves it as it was. It is cleared only by the redirect
  timer, so only after the alert of a successful save. On success \<^verbatim>\<open>savedAt\<close> is set,
  the confirmation message is shown and a timer of 3000 ms is armed; when it fires the
  storage is cleared, the browser goes to \<^verbatim>\<open>index.html\<close>, and the record reads as empty.
\<close>

theorem record_lifecycle:
  "(\<forall>pg. initFormPage html None = Some pg \<longrightarrow> stored pg = JObj []) \<and>
   (snd (chip_click nf b (pg, ls)) = ls \<or>
    (\<exists>t. data_chip_type b = Some t \<and> t \<noteq> [] \<and>
         snd (chip_click nf b (pg, ls)) =
           setStoredData nf (spread_with (getStoredData ls) [(lit ''chipType'', JStr t)]) ls)) \<and>
   (storage_of (form_submit nf pg ls) = ls \<or>
    (\<exists>v. form_validate pg = Valid v \<and> storage_of (form_submit nf pg ls) = setStoredData nf v ls)) \<and>
   (storage_of (destination_submit nf dp ls) = ls \<or>
    (\<exists>c. find cb_checked (checkboxes dp) = Some c \<and>
         navigated (destination_submit nf dp ls) = Some ''summary.html'' \<and>
         storage_of (destination_submit nf dp ls) =
           setStoredData nf (spread_with (dest_stored dp) [(lit ''destination'', JStr (cb_value c))]) ls)) \<and>
   (sum_storage (summary_step nf s e) = sum_storage s \<or>
    (\<exists>i sh. e = FetchSettled ResponseOk i sh \<and> pending s \<noteq> 0 \<and>
         sum_storage (summary_step nf s e) =
           setStoredData nf (spread_with (sum_stored s) [(lit ''savedAt'', JStr i)]) (sum_storage s)) \<or>
    (e = TimerFired \<and> redirectTimer s \<noteq> None \<and> sum_storage (summary_step nf s e) = None)) \<and>
   (\<forall>s0. initSummaryPage m ls = Rendered s0 \<and> sum_storage (summary_run nf s0 es) = None \<longrightarrow>
         ''Saved to Excel.'' \<in> set (alerts (summary_run nf s0 es))) \<and>
   (location s = ''summary.html'' \<and> pending s \<noteq> 0 \<longrightarrow>
      sum_storage (summary_step nf s (FetchSettled ResponseOk i sh)) =
        setStoredData nf (spread_with (sum_stored s) [(lit ''savedAt'', JStr i)]) (sum_storage s) \<and>
      get_prop (spread_with (sum_stored s) [(lit ''savedAt'', JStr i)]) (lit ''savedAt'') =
        Some (JStr i) \<and>
      save_message (summary_step nf s (FetchSettled ResponseOk i sh)) =
        setMessage (save_message s)
          (''Saved at '' @ sh @ ''. Redirecting to the first page in 3 seconds.'') \<and>
      alerts (summary_step nf s (FetchSettled ResponseOk i sh)) = alerts s @ [''Saved to Excel.''] \<and>
      redirectTimer (summary_step nf s (FetchSettled ResponseOk i sh)) = Some 3000 \<and>
      sum_storage (summary_step nf (summary_step nf s (FetchSettled ResponseOk i sh)) TimerFired) =
        None \<and>
      location (summary_step nf (summary_step nf s (FetchSettled ResponseOk i sh)) TimerFired) =
        ''index.html'' \<and>
      getStoredData
        (sum_storage (summary_step nf (summary_step nf s (FetchSettled ResponseOk i sh)) TimerFired)) =
        JObj [])"
proof (intro conjI allI impI)
  fix pg' assume "initFormPage html None = Some pg'"
  then show "stored pg' = JObj []"
    by (auto simp: initFormPage_def setSelectedChipType_def getStoredData_None split: if_splits)
next
  show "snd (chip_click nf b (pg, ls)) = ls \<or>
    (\<exists>t. data_chip_type b = Some t \<and> t \<noteq> [] \<and>
         snd (chip_click nf b (pg, ls)) =
           setStoredData nf (spread_with (getStoredData ls) [(lit ''chipType'', JStr t)]) ls)"
    by (rule chip_click_storage)
next
  show "storage_of (form_submit nf pg ls) = ls \<or>
    (\<exists>v. form_validate pg = Valid v \<and> storage_of (form_submit nf pg ls) = setStoredData nf v ls)"
    by (rule form_submit_storage)
next
  show "storage_of (destination_submit nf dp ls) = ls \<or>
    (\<exists>c. find cb_checked (checkboxes dp) = Some c \<and>
         navigated (destination_submit nf dp ls) = Some ''summary.html'' \<and>
         storage_of (destination_submit nf dp ls) =
           setStoredData nf (spread_with (dest_stored dp) [(lit ''destination'', JStr (cb_value c))]) ls)"
    by (rule destination_submit_storage)
next
  show "sum_storage (summary_step nf s e) = sum_storage s \<or>
    (\<exists>i sh. e = FetchSettled ResponseOk i sh \<and> pending s \<noteq> 0 \<and>
         sum_storage (summary_step nf s e) =
           setStoredData nf (spread_with (sum_stored s) [(lit ''savedAt'', JStr i)]) (sum_storage s)) \<or>
    (e = TimerFired \<and> redirectTimer s \<noteq> None \<and> sum_storage (summary_step nf s e) = None)"
    by (rule summary_step_storage)
next
  fix s0 assume a: "initSummaryPage m ls = Rendered s0 \<and> sum_storage (summary_run nf s0 es) = None"
  then have "submit_guard (summary_run nf s0 es)"
    using submit_guard_init submit_guard_run by blast
  then show "''Saved to Excel.'' \<in> set (alerts (summary_run nf s0 es))"
    using a by (simp add: submit_guard_def)
next
  assume a: "location s = ''summary.html'' \<and> pending s \<noteq> 0"
  then have l: "location s = ''summary.html''" and p: "pending s \<noteq> 0" by simp_all
  note st = success_then_timer[OF l p]
  show "sum_storage (summary_step nf s (FetchSettled ResponseOk i sh)) =
        setStoredData nf (spread_with (sum_stored s) [(lit ''savedAt'', JStr i)]) (sum_storage s)"
    by (rule st)
  show "get_prop (spread_with (sum_stored s) [(lit ''savedAt'', JStr i)]) (lit ''savedAt'') =
        Some (JStr i)"
    by (rule st)
  show "save_message (summary_step nf s (FetchSettled ResponseOk i sh)) =
        setMessage (save_message s)
          (''Saved at '' @ sh @ ''. Redirecting to the first page in 3 seconds.'')"
    by (rule st)
  show "alerts (summary_step nf s (FetchSettled ResponseOk i sh)) = alerts s @ [''Saved to Excel.'']"
    by (rule st)
  show "redirectTimer (summary_step nf s (FetchSettled ResponseOk i sh)) = Some 3000"
    by (rule st)
  show "sum_storage (summary_step nf (summary_step nf s (FetchSettled ResponseOk i sh)) TimerFired) =
        None"
    by (rule st)
  then show "getStoredData
        (sum_storage (summary_step nf (summary_step nf s (FetchSettled ResponseOk i sh)) TimerFired)) =
        JObj []"
    by (simp only: getStoredData_None)
  show "location (summary_step nf (summary_step nf s (FetchSettled ResponseOk i sh)) TimerFired) =
        ''index.html''"
    by (rule st)
qed

theorem record_lifecycle_witness:
  "initFormPage blank_form_page None = Some blank_form_page \<and> stored blank_form_page = JObj [] \<and>
   initSummaryPage (Some []) (Some scenario_A_json) = Rendered scenario_A_summary \<and>
   location (summary_run no_numbers scenario_A_summary [ClickSave]) = ''summary.html'' \<and>
   pending (summary_run no_numbers scenario_A_summary [ClickSave]) \<noteq> 0 \<and>
   redirectTimer (summary_step no_numbers (summary_run no_numbers scenario_A_summary [ClickSave])
                    (FetchSettled ResponseOk (lit ''2026-01-01T00:00:00.000Z'') ''Jan 01, 2026, 12:00 AM'')) =
     Some 3000 \<and>
   sum_storage (summary_step no_numbers
                 (summary_step no_numbers (summary_run no_numbers scenario_A_summary [ClickSave])
                    (FetchSettled ResponseOk (lit ''2026-01-01T00:00:00.000Z'') ''Jan 01, 2026, 12:00 AM''))
                 TimerFired) = None \<and>
   sum_storage (summary_run no_numbers scenario_A_summary
      [ClickSave, FetchSettled ResponseOk (lit ''2026-01-01T00:00:00.000Z'') ''Jan 01, 2026, 12:00 AM'',
       TimerFired]) = None \<and>
   ''Saved to Excel.'' \<in> set (alerts (summary_run no_numbers scenario_A_summary
      [ClickSave, FetchSettled ResponseOk (lit ''2026-01-01T00:00:00.000Z'') ''Jan 01, 2026, 12:00 AM'',
       TimerFired]))"
proof -
  have a: "initFormPage blank_form_page None = Some blank_form_page"
    by (simp add: initFormPage_def blank_form_page_def setSelectedChipType_def getStoredData_None
        lit_def)
  have b: "location (summary_run no_numbers scenario_A_summary [ClickSave]) = ''summary.html''"
    "pending (summary_run no_numbers scenario_A_summary [ClickSave]) \<noteq> 0"
    unfolding run_click by (simp_all add: scenario_A_summary_def)
  have c: "sum_storage (summary_run no_numbers scenario_A_summary
      [ClickSave, FetchSettled ResponseOk (lit ''2026-01-01T00:00:00.000Z'') ''Jan 01, 2026, 12:00 AM'',
       TimerFired]) = None"
    by (simp add: summary_run_def summary_defs scenario_A_summary_def)
  show ?thesis
    using a b c init_scenario_A
      record_lifecycle [where html=blank_form_page and nf=no_numbers and b=box_button
        and pg=blank_form_page and ls="Some scenario_A_json" and dp=no_checkboxes
        and s="summary_run no_numbers scenario_A_summary [ClickSave]" and e=ClickSave
        and m="Some []"
        and es="[ClickSave, FetchSettled ResponseOk (lit ''2026-01-01T00:00:00.000Z'') ''Jan 01, 2026, 12:00 AM'',
          TimerFired]"
        and i="lit ''2026-01-01T00:00:00.000Z''" and sh="''Jan 01, 2026, 12:00 AM''"]
    by (simp add: blank_form_page_def)
qed

section \<open>The save endpoint\<close>





















section \<open>Reading back what was written\<close>

lemma hex_char_roundtrip:
  assumes "n < 16"
  shows "is_hex (hex_char n)" "hex_val (hex_char n) = n"
proof -
  have "n \<in> {0, 1, 2, 3, 4, 5, 6, 7, 8, 9, 10, 11, 12, 13, 14, 15}"
    using assms by (simp only: insert_iff empty_iff) arith
  then show "is_hex (hex_char n)" "hex_val (hex_char n) = n"
    by (auto simp: hex_char_def is_hex_def hex_val_def is_digit_def)
qed

lemma hex_digits_value:
  fixes c :: jschar
  shows "of_nat (unat c div 4096 * 4096 + unat c div 256 mod 16 * 256
           + unat c div 16 mod 16 * 16 + unat c mod 16) = c"
proof -
  define x where "x = unat c"
  have a: "x mod 4096 = 256 * (x div 256 mod 16) + x mod 256"
    using mod_mult2_eq[of x 256 16] by simp
  have b: "x mod 256 = 16 * (x div 16 mod 16) + x mod 16"
    using mod_mult2_eq[of x 16 16] by simp
  have c: "x = x div 4096 * 4096 + x mod 4096" by simp
  have "x div 4096 * 4096 + x div 256 mod 16 * 256 + x div 16 mod 16 * 16 + x mod 16 = x"
    using a b c by linarith
  then show ?thesis unfolding x_def by simp
qed

lemma hex_digit_bounds:
  fixes c :: jschar
  shows "unat c div 4096 < 16"
proof -
  have "unat c < 65536" using unsigned_less[of c, where 'a=nat] by simp
  then show "unat c div 4096 < 16" by simp
qed

lemma parse_unicode_escape:
  "parse_chars (unicode_escape c @ rest) =
     (case parse_chars rest of None \<Rightarrow> None | Some (t, r) \<Rightarrow> Some (c # t, r))"
proof -
  have h: "is_hex (hex_char (unat c div 4096))" "is_hex (hex_char (unat c div 256 mod 16))"
    "is_hex (hex_char (unat c div 16 mod 16))" "is_hex (hex_char (unat c mod 16))"
    "hex_val (hex_char (unat c div 4096)) = unat c div 4096"
    "hex_val (hex_char (unat c div 256 mod 16)) = unat c div 256 mod 16"
    "hex_val (hex_char (unat c div 16 mod 16)) = unat c div 16 mod 16"
    "hex_val (hex_char (unat c mod 16)) = unat c mod 16"
    using hex_digit_bounds[of c] by (simp_all add: hex_char_roundtrip)
  show ?thesis
    using hex_digits_value[of c] by (simp add: unicode_escape_def h split: option.split)
qed


lemma quote_char_parse:
  assumes "\<not> is_high_surrogate c" "\<not> is_low_surrogate c"
  shows "parse_chars (quote_char c @ rest) =
     (case parse_chars rest of None \<Rightarrow> None | Some (t, r) \<Rightarrow> Some (c # t, r))"
proof -
  consider (esc) "c = 0x08 \<or> c = 0x09 \<or> c = 0x0A \<or> c = 0x0C \<or> c = 0x0D \<or> c = 0x22 \<or> c = 0x5C"
    | (ctl) "\<not> (c = 0x08 \<or> c = 0x09 \<or> c = 0x0A \<or> c = 0x0C \<or> c = 0x0D \<or> c = 0x22 \<or> c = 0x5C)"
        "c < 0x20"
    | (plain) "\<not> (c = 0x08 \<or> c = 0x09 \<or> c = 0x0A \<or> c = 0x0C \<or> c = 0x0D \<or> c = 0x22 \<or> c = 0x5C)"
        "\<not> c < 0x20"
    by blast
  then show ?thesis
  proof cases
    case esc
    then show ?thesis
      by (auto simp: quote_char_def unescape_def split: option.split)
  next
    case ctl
    then have "quote_char c = unicode_escape c" by (simp add: quote_char_def)
    then show ?thesis by (simp add: parse_unicode_escape)
  next
    case plain
    then have "quote_char c = [c]" by (simp add: quote_char_def)
    then show ?thesis using plain by (simp split: option.split)
  qed
qed

lemma surrogate_plain:
  assumes "is_high_surrogate c \<or> is_low_surrogate c"
  shows "c \<noteq> 0x22" "c \<noteq> 0x5C" "\<not> c < 0x20"
  using assms
  by (auto simp: is_high_surrogate_def is_low_surrogate_def word_le_nat_alt word_less_nat_alt)

lemma parse_quote_chars:
  "parse_chars (quote_chars s @ 0x22 # rest) = Some (s, rest)"
proof (induction s rule: quote_chars.induct)
  case 1
  then show ?case by simp
next
  case (2 c)
  then show ?case
    by (simp add: parse_unicode_escape quote_char_parse)
next
  case (3 c d ds)
  show ?case
  proof (cases "is_high_surrogate c")
    case True
    note hc = surrogate_plain[of c]
    show ?thesis
    proof (cases "is_low_surrogate d")
      case low: True
      note hd = surrogate_plain[of d]
      show ?thesis
        using True low hc hd "3.IH"(1)[OF True low]
        by simp
    next
      case False
      then show ?thesis
        using True "3.IH"(2)[OF True False]
        by (simp add: parse_unicode_escape)
    qed
  next
    case False
    show ?thesis
    proof (cases "is_low_surrogate c")
      case True
      then show ?thesis
        using False "3.IH"(3)[OF False True]
        by (simp add: parse_unicode_escape)
    next
      case nl: False
      then show ?thesis
        using False "3.IH"(4)[OF False nl]
        by (simp add: quote_char_parse)
    qed
  qed
qed

lemma skip_ws_Cons: "\<not> is_json_ws c \<Longrightarrow> skip_ws (c # cs) = c # cs"
  by (simp add: skip_ws_def)

lemma not_ws:
  "\<not> is_json_ws 0x22" "\<not> is_json_ws 0x2C" "\<not> is_json_ws 0x5D" "\<not> is_json_ws 0x7D"
  "\<not> is_json_ws 0x3A" "\<not> is_json_ws 0x5B" "\<not> is_json_ws 0x7B"
  by (simp_all add: is_json_ws_def)


subsection \<open>Doubles\<close>

lemma bitlen_pow2:
  assumes "0 < a"
  shows "(2::rat) powi (bitlen a - 1) \<le> of_int a" "of_int a < (2::rat) powi bitlen a"
proof -
  have b: "2 ^ nat (bitlen a - 1) \<le> a" "a < 2 ^ nat (bitlen a)"
    using bitlen_bounds[OF assms] by simp_all
  have "0 < bitlen a"
  proof (rule ccontr)
    assume "\<not> 0 < bitlen a"
    then have "nat (bitlen a) = 0" by simp
    then show False using b(2) assms by simp
  qed
  then have p: "0 \<le> bitlen a - 1" "0 \<le> bitlen a" by simp_all
  have "(2::rat) powi (bitlen a - 1) = of_int (2 ^ nat (bitlen a - 1))"
    using p(1) by (simp add: power_int_def)
  also have "\<dots> \<le> of_int a" using b(1) by (simp only: of_int_le_iff)
  finally show "(2::rat) powi (bitlen a - 1) \<le> of_int a" .
  have "of_int a < (of_int (2 ^ nat (bitlen a)) :: rat)" using b(2) by (simp only: of_int_less_iff)
  also have "\<dots> = (2::rat) powi bitlen a"
    using p(2) by (simp add: power_int_def)
  finally show "of_int a < (2::rat) powi bitlen a" .
qed

lemma floor_log2_bounds:
  assumes "0 < q"
  shows "2 powi floor_log2 q \<le> q" "q < 2 powi (floor_log2 q + 1)"
proof -
  obtain a b where ab: "quotient_of q = (a, b)" by (cases "quotient_of q")
  have b: "0 < b" using ab by (rule quotient_of_denom_pos)
  have q: "q = of_int a / of_int b" using ab by (rule quotient_of_div)
  have a: "0 < a" using assms b q by (simp add: zero_less_divide_iff)
  define la lb where "la = bitlen a" and "lb = bitlen b"
  note A = bitlen_pow2[OF a, folded la_def] and B = bitlen_pow2[OF b, folded lb_def]
  have bp: "0 < (of_int b :: rat)" using b by simp
  have pp: "0 < (2::rat) powi k" for k by (simp add: zero_less_power_int)
  have "q * of_int b < 2 powi la" using A(2) q bp by simp
  also have "\<dots> = 2 powi (la - lb + 1) * 2 powi (lb - 1)"
    by (simp add: power_int_add[symmetric])
  also have "\<dots> \<le> 2 powi (la - lb + 1) * of_int b"
    using B(1) pp[of "la - lb + 1"] by (intro mult_left_mono) simp_all
  finally have up: "q < 2 powi (la - lb + 1)" using bp by simp
  have "(2::rat) powi (la - lb - 1) * of_int b \<le> 2 powi (la - lb - 1) * 2 powi lb"
    using B(2) pp[of "la - lb - 1"] by (intro mult_left_mono) simp_all
  also have "\<dots> = 2 powi (la - 1)" by (simp add: power_int_add[symmetric])
  also have "\<dots> \<le> q * of_int b" using A(1) q bp by simp
  finally have lo: "2 powi (la - lb - 1) \<le> q" using bp by simp
  have fl: "floor_log2 q = (if 2 powi (la - lb) \<le> q then la - lb else la - lb - 1)"
    by (simp add: floor_log2_def ab la_def lb_def Let_def)
  show "2 powi floor_log2 q \<le> q" using lo by (simp add: fl)
  show "q < 2 powi (floor_log2 q + 1)" using up by (auto simp: fl not_le)
qed

lemma floor_log2_unique:
  assumes "2 powi e \<le> q" "q < 2 powi (e + 1)"
  shows "floor_log2 q = e"
proof -
  have "0 < (2::rat) powi e" by (rule zero_less_power_int) simp
  then have q: "0 < q" using assms(1) by (rule less_le_trans)
  note b = floor_log2_bounds[OF q]
  have "(2::rat) powi e < 2 powi (floor_log2 q + 1)" using assms(1) b(2) by simp
  then have 1: "e < floor_log2 q + 1"
    by (metis linorder_not_less one_le_numeral power_int_increasing)
  have "(2::rat) powi floor_log2 q < 2 powi (e + 1)" using assms(2) b(1) by simp
  then have 2: "floor_log2 q < e + 1"
    by (metis linorder_not_less one_le_numeral power_int_increasing)
  show ?thesis using 1 2 by simp
qed

text \<open>The rounding is to a nearest multiple of the spacing.\<close>

lemma binary64_nearest:
  assumes "0 < q"
  shows "\<bar>binary64 q - q\<bar> \<le> 2 powi max (floor_log2 q - 52) (- 1074) / 2"
proof -
  define u :: rat where "u = 2 powi max (floor_log2 q - 52) (- 1074)"
  define n where "n = \<lfloor>q / u\<rfloor>"
  define f where "f = q / u - of_int n"
  define k where "k = (if f < 1 / 2 \<or> (f = 1 / 2 \<and> even n) then n else n + 1)"
  have u: "0 < u" by (simp add: u_def zero_less_power_int)
  have f: "0 \<le> f" "f < 1" unfolding f_def n_def by linarith+
  have b: "binary64 q = of_int k * u"
    using assms by (simp add: binary64_def Let_def u_def n_def f_def k_def)
  have "\<bar>of_int k - q / u\<bar> \<le> 1 / 2"
    using f by (auto simp: k_def f_def)
  then have "\<bar>of_int k - q / u\<bar> * u \<le> 1 / 2 * u"
    using u by (intro mult_right_mono) simp_all
  also have "\<bar>of_int k - q / u\<bar> * u = \<bar>(of_int k - q / u) * u\<bar>"
    using u by (simp add: abs_mult)
  also have "(of_int k - q / u) * u = of_int k * u - q"
    using u by (simp add: left_diff_distrib)
  finally have "\<bar>of_int k * u - q\<bar> \<le> u / 2" by simp
  then show ?thesis unfolding b u_def .
qed

text \<open>A double is zero or at least the least subnormal.\<close>

lemma binary64_multiple:
  assumes "0 < q"
  shows "\<exists>k m. 0 \<le> k \<and> - 1074 \<le> m \<and> binary64 q = of_int k * 2 powi m"
proof -
  define u :: rat where "u = 2 powi max (floor_log2 q - 52) (- 1074)"
  have u: "0 < u" by (simp add: u_def zero_less_power_int)
  have "0 \<le> q / u" using assms u by simp
  then have n: "0 \<le> \<lfloor>q / u\<rfloor>" by simp
  define k where "k = (if q / u - of_int \<lfloor>q / u\<rfloor> < 1 / 2 \<or>
                         (q / u - of_int \<lfloor>q / u\<rfloor> = 1 / 2 \<and> even \<lfloor>q / u\<rfloor>)
                       then \<lfloor>q / u\<rfloor> else \<lfloor>q / u\<rfloor> + 1)"
  have "binary64 q = of_int k * u"
    using assms by (simp add: binary64_def Let_def u_def k_def)
  moreover have "0 \<le> k" using n by (simp add: k_def)
  ultimately show ?thesis unfolding u_def by (intro exI[of _ k] exI[of _ "max (floor_log2 q - 52) (- 1074)"]) simp
qed

lemma binary64_zero: "rounds_to_zero (binary64 q) \<Longrightarrow> binary64 q = 0"
proof (cases "0 < q")
  case False
  then show ?thesis by (simp add: binary64_def)
next
  case True
  assume r: "rounds_to_zero (binary64 q)"
  obtain k m where km: "0 \<le> k" "- 1074 \<le> m" "binary64 q = of_int k * 2 powi m"
    using binary64_multiple[OF True] by blast
  show ?thesis
  proof (cases "k = 0")
    case True
    then show ?thesis using km by simp
  next
    case False
    then have "1 \<le> k" using km(1) by simp
    then have "(1::rat) \<le> of_int k" by simp
    then have "(2::rat) powi m \<le> of_int k * 2 powi m"
      using zero_less_power_int[of "2::rat" m] by simp
    moreover have "(2::rat) powi (- 1074) \<le> 2 powi m"
      using km(2) by (intro power_int_increasing) simp_all
    ultimately have "(2::rat) powi (- 1074) \<le> binary64 q"
      unfolding km(3) by linarith
    moreover have "(1::rat) / 2 ^ 1075 < 2 powi (- 1074)"
      by (simp add: power_int_minus_divide)
    ultimately have "(1::rat) / 2 ^ 1075 < binary64 q" by (rule less_le_trans[rotated])
    then have "(1::rat) / 2 ^ 1075 < \<bar>binary64 q\<bar>"
      by (rule less_le_trans) (rule abs_ge_self)
    then have "\<not> rounds_to_zero (binary64 q)"
      unfolding rounds_to_zero_def by (simp only: not_le)
    then show ?thesis using r by simp
  qed
qed

lemma to_double_canonical: "canonical (to_double neg q)"
  using binary64_zero[of q] by (auto simp: to_double_def)

text \<open>A magnitude that is a double is its own rounding.\<close>

lemma binary64_exact:
  assumes "2 powi e \<le> q" "q < 2 powi (e + 1)"
    and "q = of_int n * 2 powi max (e - 52) (- 1074)"
  shows "binary64 q = q"
proof -
  have "0 < (2::rat) powi e" by (rule zero_less_power_int) simp
  then have q: "0 < q" using assms(1) by (rule less_le_trans)
  have e: "floor_log2 q = e" using assms(1,2) by (rule floor_log2_unique)
  define u :: rat where "u = 2 powi max (e - 52) (- 1074)"
  have u: "0 < u" by (simp add: u_def zero_less_power_int)
  have d: "q / u = of_int n" using assms(3) u by (simp add: u_def)
  show ?thesis
    using q by (simp add: binary64_def Let_def e u_def[symmetric] d) (simp add: assms(3) u_def)
qed

lemma double_12_5: "to_double False (25 / 2) = Finite False (25 / 2)"
proof -
  have "binary64 (25 / 2) = 25 / 2"
    by (rule binary64_exact[where e=3 and n="25 * 2 ^ 48"]) (simp_all add: power_int_minus_divide)
  then show ?thesis by (simp add: to_double_def rounds_to_infinity_def)
qed

lemma double_zero: "to_double neg 0 = Finite neg 0"
  by (simp add: to_double_def rounds_to_infinity_def binary64_def)

subsection \<open>Number literals\<close>

lemma delimiter_cases:
  assumes "delimiter r"
  obtains "r = []" | c cs where "r = c # cs" "c = 0x2C \<or> c = 0x5D \<or> c = 0x7D"
  using assms by (cases r) (auto simp: delimiter_def)

lemma delimiter_digits:
  assumes "delimiter r"
  shows "takeWhile is_digit (t @ r) = takeWhile is_digit t"
    "dropWhile is_digit (t @ r) = dropWhile is_digit t @ r"
proof -
  have r: "takeWhile is_digit r = [] \<and> dropWhile is_digit r = r"
  proof (cases r)
    case Nil
    then show ?thesis by simp
  next
    case (Cons c cs)
    then have "\<not> is_digit c" using assms by (auto simp: delimiter_def is_digit_def)
    then show ?thesis by (simp add: Cons)
  qed
  show "takeWhile is_digit (t @ r) = takeWhile is_digit t"
    by (induction t) (simp_all add: r)
  show "dropWhile is_digit (t @ r) = dropWhile is_digit t @ r"
    by (induction t) (simp_all add: r)
qed

lemma exponent_part_append:
  assumes "exponent_part t = Some (e, r0)" "delimiter r"
  shows "exponent_part (t @ r) = Some (e, r0 @ r)"
proof -
  obtain c t' where t: "t = c # t'" using assms(1) by (cases t) (auto simp: exponent_part_def)
  have c: "c = 0x65 \<or> c = 0x45"
    using assms(1) by (auto simp: exponent_part_def t split: if_splits)
  define su where "su = (case t' of [] \<Rightarrow> (False, t')
                         | d # r' \<Rightarrow> if d = 0x2D then (True, r')
                                    else if d = 0x2B then (False, r') else (False, t'))"
  obtain neg u where su': "su = (neg, u)" by (cases su)
  have ex: "exponent_part t =
              (if takeWhile is_digit u = [] then None
               else Some (if neg then - int (digits_val (takeWhile is_digit u))
                          else int (digits_val (takeWhile is_digit u)), dropWhile is_digit u))"
    unfolding exponent_part_def t using c by (simp add: su_def[symmetric] su' Let_def)
  have ds: "takeWhile is_digit u \<noteq> []" using assms(1) ex by (auto split: if_splits)
  have e: "e = (if neg then - int (digits_val (takeWhile is_digit u))
                else int (digits_val (takeWhile is_digit u)))"
    and r0: "r0 = dropWhile is_digit u"
    using assms(1) ex ds by simp_all
  have t': "t' \<noteq> []" using ds su' by (auto simp: su_def)
  have su2: "(case t' @ r of [] \<Rightarrow> (False, t' @ r)
              | d # r' \<Rightarrow> if d = 0x2D then (True, r')
                         else if d = 0x2B then (False, r') else (False, t' @ r)) = (neg, u @ r)"
    using t' su' by (cases t') (auto simp: su_def split: if_splits)
  have "exponent_part (c # (t' @ r)) =
          (if takeWhile is_digit (u @ r) = [] then None
           else Some (if neg then - int (digits_val (takeWhile is_digit (u @ r)))
                      else int (digits_val (takeWhile is_digit (u @ r))),
                      dropWhile is_digit (u @ r)))"
    unfolding exponent_part_def using c by (simp add: su2 Let_def)
  then show ?thesis
    by (simp add: t delimiter_digits[OF assms(2)] ds e r0)
qed

lemma json_exponent_append:
  assumes "json_exponent t = Some (e, r0)" "delimiter r"
  shows "json_exponent (t @ r) = Some (e, r0 @ r)"
proof (cases t)
  case Nil
  then show ?thesis
    using assms by (cases rule: delimiter_cases[OF assms(2)]) (auto simp: json_exponent_def)
next
  case (Cons c t')
  show ?thesis
  proof (cases "c = 0x65 \<or> c = 0x45")
    case True
    then have "exponent_part t = Some (e, r0)" using assms(1) Cons by (auto simp: json_exponent_def)
    then have "exponent_part (t @ r) = Some (e, r0 @ r)" using assms(2) by (rule exponent_part_append)
    then show ?thesis using True Cons by (auto simp: json_exponent_def)
  next
    case False
    then show ?thesis using assms(1) Cons by (auto simp: json_exponent_def)
  qed
qed

lemma json_fraction_append:
  assumes "json_fraction t = Some (fp, r0)" "delimiter r"
  shows "json_fraction (t @ r) = Some (fp, r0 @ r)"
proof (cases t)
  case Nil
  then show ?thesis
    using assms by (cases rule: delimiter_cases[OF assms(2)]) (auto simp: json_fraction_def)
next
  case (Cons c t')
  then show ?thesis
    using assms(1)
    by (auto simp: json_fraction_def delimiter_digits[OF assms(2)] split: if_splits)
qed

lemma json_number_append:
  assumes "json_number l = Some (x, r0)" "delimiter r"
  shows "json_number (l @ r) = Some (x, r0 @ r)"
proof -
  define neg where "neg = (case l of [] \<Rightarrow> False | c # _ \<Rightarrow> c = 0x2D)"
  define u where "u = (case l of [] \<Rightarrow> l | c # t \<Rightarrow> if c = 0x2D then t else l)"
  have l: "l \<noteq> []" using assms(1) by (auto simp: json_number_def)
  have s1: "(case l of [] \<Rightarrow> (False, l) | c # t \<Rightarrow> if c = 0x2D then (True, t) else (False, l)) = (neg, u)"
    by (simp add: neg_def u_def split: list.split)
  have s2: "(case l @ r of [] \<Rightarrow> (False, l @ r)
             | c # t \<Rightarrow> if c = 0x2D then (True, t) else (False, l @ r)) = (neg, u @ r)"
    using l by (cases l) (simp_all add: neg_def u_def)
  define ip where "ip = takeWhile is_digit u"
  have ok: "\<not> (ip = [] \<or> hd ip = 0x30 \<and> 1 < length ip)"
    using assms(1) unfolding json_number_def s1 by (auto simp: Let_def ip_def split: if_splits)
  obtain fp r2 where fr: "json_fraction (dropWhile is_digit u) = Some (fp, r2)"
    using assms(1) ok unfolding json_number_def s1
    by (auto simp: Let_def ip_def split: if_splits option.splits)
  obtain e where ex: "json_exponent r2 = Some (e, r0)"
    and x: "x = to_double neg (scale10 (digits_val (ip @ fp)) (e - int (length fp)))"
    using assms(1) ok fr unfolding json_number_def s1
    by (auto simp: Let_def ip_def split: if_splits option.splits)
  have fr': "json_fraction (dropWhile is_digit u @ r) = Some (fp, r2 @ r)"
    using fr assms(2) by (rule json_fraction_append)
  have ex': "json_exponent (r2 @ r) = Some (e, r0 @ r)"
    using ex assms(2) by (rule json_exponent_append)
  show ?thesis
    unfolding json_number_def s2
    using ok by (simp add: Let_def delimiter_digits[OF assms(2)] ip_def[symmetric] fr' ex' x)
qed

lemma json_number_head:
  assumes "json_number l = Some (x, r0)"
  shows "\<exists>c cs. l = c # cs \<and> (c = 0x2D \<or> is_digit c)"
proof (cases l)
  case Nil
  then show ?thesis using assms by (simp add: json_number_def)
next
  case (Cons c cs)
  show ?thesis
  proof (cases "c = 0x2D")
    case False
    then have "takeWhile is_digit (c # cs) \<noteq> []"
      using assms Cons by (auto simp: json_number_def Let_def split: if_splits)
    then have "is_digit c" by (auto split: if_splits)
    then show ?thesis using Cons by simp
  qed (simp add: Cons)
qed

lemma json_number_canonical: "json_number s = Some (x, r) \<Longrightarrow> canonical x"
  by (auto simp: json_number_def Let_def to_double_canonical split: if_splits option.splits prod.splits)

lemma json_number_zero: "json_number (lit ''0'') = Some (Finite False 0, [])"
  by (simp add: json_number_def json_fraction_def json_exponent_def lit_def is_digit_def
      digits_val_def digit_val_def scale10_def double_zero)

subsection \<open>Values\<close>

lemma all_numbers_iff: "all_numbers P v \<longleftrightarrow> (\<forall>x\<in>set (numbers v). P x)"
  by (induction v) (auto simp: Basic_BNFs.snds.simps)

lemma all_numbers_mono: "all_numbers P v \<Longrightarrow> (\<And>x. P x \<Longrightarrow> Q x) \<Longrightarrow> all_numbers Q v"
  by (auto simp: all_numbers_iff)

lemma stable_text:
  assumes "stable nf x"
  shows "json_number (JSON_stringify nf (JNum x)) = Some (pos_zero x, [])"
proof (cases x)
  case (Finite neg q)
  show ?thesis
  proof (cases "rounds_to_zero q")
    case True
    then have "q = 0" using assms Finite by (simp add: stable_def)
    then show ?thesis using assms Finite True by (simp add: stable_def json_number_zero)
  next
    case False
    then have "q \<noteq> 0" by (auto simp: rounds_to_zero_def)
    then show ?thesis using assms Finite False by (simp add: stable_def reads_back_def)
  qed
qed (use assms in \<open>simp_all add: stable_def\<close>)

lemma stringify_head:
  assumes "all_numbers (stable nf) v"
  shows "\<exists>c cs. JSON_stringify nf v = c # cs \<and> value_start c"
proof (cases v)
  case (JNum x)
  then have "json_number (JSON_stringify nf v) = Some (pos_zero x, [])"
    using assms stable_text by simp
  then show ?thesis using json_number_head by (fastforce simp: value_start_def)
qed (auto simp: lit_def QuoteJSONString_def value_start_def)

lemma value_start_facts:
  assumes "value_start c"
  shows "\<not> is_json_ws c" "c \<noteq> 0x5D" "c \<noteq> 0x7D"
  using assms by (auto simp: value_start_def is_json_ws_def is_digit_def)

lemma roundtrip_leaf:
  "parse_value (Suc n) (lit ''null'' @ rest) = Inr (JNull, rest)"
  "parse_value (Suc n) (lit ''true'' @ rest) = Inr (JBool True, rest)"
  "parse_value (Suc n) (lit ''false'' @ rest) = Inr (JBool False, rest)"
  "parse_value (Suc n) (QuoteJSONString s @ rest) = Inr (JStr s, rest)"
  "parse_value (Suc n) (0x5B # 0x5D # rest) = Inr (JArr [], rest)"
  "parse_value (Suc n) (0x7B # 0x7D # rest) = Inr (JObj [], rest)"
  by (simp_all add: lit_def skip_ws_def is_json_ws_def QuoteJSONString_def parse_quote_chars)

lemma roundtrip_number:
  assumes "stable nf x" "delimiter rest"
  shows "parse_value (Suc n) (JSON_stringify nf (JNum x) @ rest) = Inr (JNum (pos_zero x), rest)"
proof -
  let ?l = "JSON_stringify nf (JNum x)"
  have j: "json_number ?l = Some (pos_zero x, [])" using assms(1) by (rule stable_text)
  then have ja: "json_number (?l @ rest) = Some (pos_zero x, rest)"
    using json_number_append[OF j assms(2)] by simp
  obtain c cs where l: "?l = c # cs" and c: "c = 0x2D \<or> is_digit c"
    using json_number_head[OF j] by blast
  have "\<not> is_json_ws c" "c \<noteq> 0x5B" "c \<noteq> 0x7B" "c \<noteq> 0x22" "c \<noteq> 0x6E" "c \<noteq> 0x74" "c \<noteq> 0x66"
    using c by (auto simp: is_json_ws_def is_digit_def)
  then show ?thesis
    using ja unfolding l by (simp add: skip_ws_Cons lit_def)
qed

lemma roundtrip_elements:
  assumes "\<forall>x\<in>set xs. \<forall>n rest. parse_depth x \<le> n \<longrightarrow> delimiter rest \<longrightarrow>
           parse_value n (JSON_stringify nf x @ rest) = Inr (positive_zeros x, rest)"
    and "xs \<noteq> []"
    and "sum_list (map (\<lambda>x. Suc (parse_depth x)) xs) \<le> n"
  shows "parse_elements n (join_comma (map (JSON_stringify nf) xs) @ 0x5D # rest) =
           Inr (map positive_zeros xs, rest)"
  using assms
proof (induction xs arbitrary: n)
  case Nil
  then show ?case by simp
next
  case (Cons x xs)
  from Cons.prems(3) obtain n' where n: "n = Suc n'" and nx: "parse_depth x \<le> n'"
    and nxs: "sum_list (map (\<lambda>x. Suc (parse_depth x)) xs) \<le> n'"
    by (cases n) auto
  have px: "parse_value n' (JSON_stringify nf x @ r) = Inr (positive_zeros x, r)" if "delimiter r" for r
    using Cons.prems(1) nx that by simp
  show ?case
  proof (cases xs)
    case Nil
    then show ?thesis
      using px[of "0x5D # rest"] by (simp add: n skip_ws_Cons not_ws delimiter_def)
  next
    case (Cons y ys)
    have ih: "parse_elements n' (join_comma (map (JSON_stringify nf) xs) @ 0x5D # rest) =
                Inr (map positive_zeros xs, rest)"
      using Cons.IH[of n'] Cons.prems nxs Cons by simp
    show ?thesis
      using px[of "0x2C # join_comma (map (JSON_stringify nf) xs) @ 0x5D # rest"] ih
      by (simp add: n Cons skip_ws_Cons not_ws delimiter_def)
  qed
qed

lemma roundtrip_members:
  assumes "\<forall>kv\<in>set kvs. \<forall>n rest. parse_depth (snd kv) \<le> n \<longrightarrow> delimiter rest \<longrightarrow>
           parse_value n (JSON_stringify nf (snd kv) @ rest) = Inr (positive_zeros (snd kv), rest)"
    and "kvs \<noteq> []"
    and "sum_list (map (\<lambda>kv. Suc (parse_depth (snd kv))) kvs) \<le> n"
  shows "parse_members n
           (join_comma (map (\<lambda>kv. QuoteJSONString (fst kv) @ 0x3A # JSON_stringify nf (snd kv)) kvs)
              @ 0x7D # rest) = Inr (map (\<lambda>kv. (fst kv, positive_zeros (snd kv))) kvs, rest)"
  using assms
proof (induction kvs arbitrary: n)
  case Nil
  then show ?case by simp
next
  case (Cons kv kvs)
  obtain k v where kv: "kv = (k, v)" by (cases kv)
  from Cons.prems(3) obtain n' where n: "n = Suc n'" and nx: "parse_depth v \<le> n'"
    and nxs: "sum_list (map (\<lambda>kv. Suc (parse_depth (snd kv))) kvs) \<le> n'"
    by (cases n) (auto simp: kv)
  have pv: "parse_value n' (JSON_stringify nf v @ r) = Inr (positive_zeros v, r)" if "delimiter r" for r
    using Cons.prems(1) nx that by (simp add: kv)
  have pk: "parse_chars (quote_chars k @ 0x22 # r) = Some (k, r)" for r
    by (rule parse_quote_chars)
  show ?case
  proof (cases kvs)
    case Nil
    then show ?thesis
      using pv[of "0x7D # rest"]
      by (simp add: n kv skip_ws_Cons not_ws QuoteJSONString_def pk delimiter_def)
  next
    case (Cons kv' kvs')
    have ih: "parse_members n'
           (join_comma (map (\<lambda>kv. QuoteJSONString (fst kv) @ 0x3A # JSON_stringify nf (snd kv)) kvs)
              @ 0x7D # rest) = Inr (map (\<lambda>kv. (fst kv, positive_zeros (snd kv))) kvs, rest)"
      using Cons.IH[of n'] Cons.prems nxs Cons by simp
    show ?thesis
      using pv[of "0x2C # join_comma (map (\<lambda>kv. QuoteJSONString (fst kv) @ 0x3A # JSON_stringify nf (snd kv)) kvs) @ 0x7D # rest"] ih
      by (simp add: n kv Cons skip_ws_Cons not_ws QuoteJSONString_def pk delimiter_def)
  qed
qed

lemma update_fresh: "k \<notin> fst ` set al \<Longrightarrow> AList.update k v al = al @ [(k, v)]"
  by (induction al) auto

lemma foldl_update_distinct:
  "distinct (map fst (acc @ kvs)) \<Longrightarrow>
   foldl (\<lambda>acc (k, v). AList.update k v acc) acc kvs = acc @ kvs"
proof (induction kvs arbitrary: acc)
  case Nil
  then show ?case by simp
next
  case (Cons kv kvs)
  obtain k v where kv: "kv = (k, v)" by (cases kv)
  have "k \<notin> fst ` set acc" using Cons.prems by (auto simp: kv)
  then have u: "AList.update k v acc = acc @ [(k, v)]" by (rule update_fresh)
  have "distinct (map fst ((acc @ [(k, v)]) @ kvs))" using Cons.prems by (simp add: kv)
  then show ?case using Cons.IH[of "acc @ [(k, v)]"] by (simp add: kv u)
qed

lemma obj_of_members_distinct: "distinct (map fst kvs) \<Longrightarrow> obj_of_members kvs = JObj kvs"
  using foldl_update_distinct[of "[]" kvs] by (simp add: obj_of_members_def)

lemma roundtrip_value:
  "all_numbers (stable nf) v \<Longrightarrow> distinct_keys v \<Longrightarrow> parse_depth v \<le> n \<Longrightarrow> delimiter rest \<Longrightarrow>
   parse_value n (JSON_stringify nf v @ rest) = Inr (positive_zeros v, rest)"
proof (induction v arbitrary: n rest)
  case JNull
  then show ?case using roundtrip_leaf(1)[of "n - 1" rest] by simp
next
  case (JBool b)
  then show ?case
    using roundtrip_leaf(2)[of "n - 1" rest] roundtrip_leaf(3)[of "n - 1" rest] by simp
next
  case (JNum x)
  then have "stable nf x" "n = Suc (n - 1)" by simp_all
  then show ?case using roundtrip_number[of nf x rest "n - 1"] JNum.prems(4) by simp
next
  case (JStr s)
  then show ?case using roundtrip_leaf(4)[of "n - 1" s rest] by simp
next
  case (JArr xs)
  obtain n' where n: "n = Suc n'" and n': "sum_list (map (\<lambda>x. Suc (parse_depth x)) xs) \<le> n'"
    using JArr.prems(3) by (cases n) auto
  show ?case
  proof (cases xs)
    case Nil
    then show ?thesis using roundtrip_leaf(5)[of n' rest] by (simp add: n)
  next
    case (Cons x xs')
    have nf: "\<forall>x\<in>set xs. all_numbers (stable nf) x" using JArr.prems(1) by simp
    have ih: "\<forall>x\<in>set xs. \<forall>n rest. parse_depth x \<le> n \<longrightarrow> delimiter rest \<longrightarrow>
           parse_value n (JSON_stringify nf x @ rest) = Inr (positive_zeros x, rest)"
      using JArr.IH JArr.prems(1,2) by simp
    have el: "parse_elements n' (join_comma (map (JSON_stringify nf) xs) @ 0x5D # rest) =
                Inr (map positive_zeros xs, rest)"
      using roundtrip_elements[OF ih _ n'] Cons by simp
    obtain c cs where hd: "JSON_stringify nf x = c # cs" and vs: "value_start c"
      using stringify_head[of nf x] nf Cons by auto
    obtain ds where j: "join_comma (map (JSON_stringify nf) xs) = c # ds"
      using hd Cons by (cases xs') auto
    show ?thesis
      using el value_start_facts[OF vs]
      by (simp add: n j skip_ws_Cons not_ws)
  qed
next
  case (JObj kvs)
  obtain n' where n: "n = Suc n'"
    and n': "sum_list (map (\<lambda>kv. Suc (parse_depth (snd kv))) kvs) \<le> n'"
    using JObj.prems(3) by (cases n) auto
  show ?case
  proof (cases kvs)
    case Nil
    then show ?thesis using roundtrip_leaf(6)[of n' rest] by (simp add: n)
  next
    case (Cons kv kvs')
    have ih: "\<forall>kv\<in>set kvs. \<forall>n rest. parse_depth (snd kv) \<le> n \<longrightarrow> delimiter rest \<longrightarrow>
           parse_value n (JSON_stringify nf (snd kv) @ rest) = Inr (positive_zeros (snd kv), rest)"
    proof (intro ballI allI impI)
      fix kv n rest assume kv: "kv \<in> set kvs" and d: "parse_depth (snd kv) \<le> n"
        and r: "delimiter rest"
      have "snd kv \<in> Basic_BNFs.snds kv" by (cases kv) simp
      then show "parse_value n (JSON_stringify nf (snd kv) @ rest) = Inr (positive_zeros (snd kv), rest)"
        using JObj.IH[OF kv] JObj.prems(1,2) kv d r by simp
    qed
    have me: "parse_members n'
           (join_comma (map (\<lambda>kv. QuoteJSONString (fst kv) @ 0x3A # JSON_stringify nf (snd kv)) kvs)
              @ 0x7D # rest) = Inr (map (\<lambda>kv. (fst kv, positive_zeros (snd kv))) kvs, rest)"
      using roundtrip_members[OF ih _ n'] Cons by simp
    obtain ds where j: "join_comma (map (\<lambda>kv. QuoteJSONString (fst kv) @ 0x3A # JSON_stringify nf (snd kv)) kvs) = 0x22 # ds"
      using Cons by (cases kvs') (auto simp: QuoteJSONString_def)
    have "distinct (map fst kvs)" using JObj.prems(2) by simp
    then have d: "distinct (map fst (map (\<lambda>kv. (fst kv, positive_zeros (snd kv))) kvs))"
      by (simp add: comp_def)
    show ?thesis
      using me by (simp add: n j skip_ws_Cons not_ws obj_of_members_distinct[OF d])
  qed
qed

lemma update_member:
  "kv \<in> set (AList.update k v al) \<Longrightarrow> kv \<in> set al \<or> kv = (k, v)"
  by (induction al) (auto split: if_splits)

lemma foldl_update_keeps:
  assumes "distinct (map fst acc)" "\<forall>kv\<in>set acc. P (snd kv)" "\<forall>kv\<in>set ms. P (snd kv)"
  shows "distinct (map fst (foldl (\<lambda>acc (k, v). AList.update k v acc) acc ms)) \<and>
         (\<forall>kv\<in>set (foldl (\<lambda>acc (k, v). AList.update k v acc) acc ms). P (snd kv))"
  using assms
proof (induction ms arbitrary: acc)
  case Nil
  then show ?case by simp
next
  case (Cons m ms)
  obtain k v where m: "m = (k, v)" by (cases m)
  have d: "distinct (map fst (AList.update k v acc))"
    using Cons.prems(1) by (rule distinct_update)
  have p: "\<forall>kv\<in>set (AList.update k v acc). P (snd kv)"
  proof
    fix kv assume "kv \<in> set (AList.update k v acc)"
    then have "kv \<in> set acc \<or> kv = (k, v)" by (rule update_member)
    then show "P (snd kv)" using Cons.prems(2,3) by (auto simp: m)
  qed
  show ?case using Cons.IH[OF d p] Cons.prems(3) by (simp add: m)
qed

lemma obj_of_members_distinct_keys:
  "\<forall>kv\<in>set ms. distinct_keys (snd kv) \<Longrightarrow> distinct_keys (obj_of_members ms)"
  using foldl_update_keeps[of "[]" distinct_keys ms] by (simp add: obj_of_members_def)

lemma parse_distinct_keys:
  "parse_value n s = Inr (v, r) \<Longrightarrow> distinct_keys v"
  "parse_elements n s = Inr (vs, r) \<Longrightarrow> \<forall>v\<in>set vs. distinct_keys v"
  "parse_members n s = Inr (ms, r) \<Longrightarrow> \<forall>kv\<in>set ms. distinct_keys (snd kv)"
proof (induction n s and n s and n s arbitrary: v r and vs r and ms r
    rule: parse_value_parse_elements_parse_members.induct)
  case (1 s)
  then show ?case by simp
next
  case (2 n s)
  from "2.prems" obtain c cs where sk: "skip_ws s = c # cs"
    by (auto split: list.splits)
  consider (arr) "c = 0x5B" | (obj) "c \<noteq> 0x5B" "c = 0x7B" | (other) "c \<noteq> 0x5B" "c \<noteq> 0x7B"
    by blast
  then show ?case
  proof cases
    case arr
    from "2.prems" sk arr obtain d ds where sk2: "skip_ws cs = d # ds"
      by (auto split: list.splits)
    show ?thesis
    proof (cases "d = 0x5D")
      case True
      then show ?thesis using "2.prems" sk arr sk2 by auto
    next
      case False
      then obtain xs where pe: "parse_elements n cs = Inr (xs, r)" and v: "v = JArr xs"
        using "2.prems" sk arr sk2 by (auto split: sum.splits)
      show ?thesis using "2.IH"(1)[OF sk arr sk2 False pe] v by simp
    qed
  next
    case obj
    from "2.prems" sk obj obtain d ds where sk2: "skip_ws cs = d # ds"
      by (auto split: list.splits)
    show ?thesis
    proof (cases "d = 0x7D")
      case True
      then show ?thesis using "2.prems" sk obj sk2 by auto
    next
      case False
      then obtain ms where pm: "parse_members n cs = Inr (ms, r)" and v: "v = obj_of_members ms"
        using "2.prems" sk obj sk2 by (auto split: sum.splits)
      show ?thesis
        using "2.IH"(2)[OF sk obj(1) obj(2) sk2 False pm] v obj_of_members_distinct_keys by simp
    qed
  next
    case other
    then show ?thesis
      using "2.prems" sk by (auto split: if_splits option.splits)
  qed
next
  case (3 s)
  then show ?case by simp
next
  case (4 n s)
  from "4.prems" obtain v r1 where pv: "parse_value n s = Inr (v, r1)"
    by (auto split: sum.splits)
  have dv: "distinct_keys v" using "4.IH"(1)[OF pv] .
  from "4.prems" pv obtain c cs where sk: "skip_ws r1 = c # cs"
    by (auto split: list.splits)
  show ?case
  proof (cases "c = 0x2C")
    case True
    then obtain ws where pe: "parse_elements n cs = Inr (ws, r)" and vs: "vs = v # ws"
      using "4.prems" pv sk by (auto split: sum.splits)
    show ?thesis using "4.IH"(2)[OF pv refl sk True pe] dv vs by simp
  next
    case False
    then have "vs = [v]" using "4.prems" pv sk by (auto split: if_splits)
    then show ?thesis using dv by simp
  qed
next
  case (5 s)
  then show ?case by simp
next
  case (6 n s)
  from "6.prems" obtain q qs where sk: "skip_ws s = q # qs"
    by (auto split: list.splits)
  from "6.prems" sk have q: "q = 0x22" by (auto split: if_splits)
  from "6.prems" sk q obtain k r0 where pc: "parse_chars qs = Some (k, r0)"
    by (auto split: option.splits)
  from "6.prems" sk q pc obtain d ds where sk2: "skip_ws r0 = d # ds"
    by (auto split: list.splits)
  from "6.prems" sk q pc sk2 have d: "d = 0x3A" by (auto split: if_splits)
  from "6.prems" sk q pc sk2 d obtain v r2 where pv: "parse_value n ds = Inr (v, r2)"
    by (auto split: sum.splits)
  from "6.prems" sk q pc sk2 d pv obtain c cs where sk3: "skip_ws r2 = c # cs"
    by (auto split: list.splits)
  have dv: "distinct_keys v" using "6.IH"(1)[OF sk q pc refl sk2 d pv] .
  show ?case
  proof (cases "c = 0x2C")
    case True
    then obtain ws where pm: "parse_members n cs = Inr (ws, r)" and ms: "ms = (k, v) # ws"
      using "6.prems" sk q pc sk2 d pv sk3 by (auto split: sum.splits)
    show ?thesis
      using "6.IH"(2)[OF sk q pc refl sk2 d pv refl sk3 True pm] dv ms by simp
  next
    case False
    then have "ms = [(k, v)]" using "6.prems" sk q pc sk2 d pv sk3 by (auto split: if_splits)
    then show ?thesis using dv by simp
  qed
qed


lemma obj_of_members_canonical:
  "\<forall>kv\<in>set ms. all_numbers canonical (snd kv) \<Longrightarrow> all_numbers canonical (obj_of_members ms)"
  using foldl_update_keeps[of "[]" "all_numbers canonical" ms] by (simp add: obj_of_members_def)

lemma parse_canonical:
  "parse_value n s = Inr (v, r) \<Longrightarrow> all_numbers canonical v"
  "parse_elements n s = Inr (vs, r) \<Longrightarrow> \<forall>v\<in>set vs. all_numbers canonical v"
  "parse_members n s = Inr (ms, r) \<Longrightarrow> \<forall>kv\<in>set ms. all_numbers canonical (snd kv)"
proof (induction n s and n s and n s arbitrary: v r and vs r and ms r
    rule: parse_value_parse_elements_parse_members.induct)
  case (1 s)
  then show ?case by simp
next
  case (2 n s)
  from "2.prems" obtain c cs where sk: "skip_ws s = c # cs"
    by (auto split: list.splits)
  consider (arr) "c = 0x5B" | (obj) "c \<noteq> 0x5B" "c = 0x7B" | (other) "c \<noteq> 0x5B" "c \<noteq> 0x7B"
    by blast
  then show ?case
  proof cases
    case arr
    from "2.prems" sk arr obtain d ds where sk2: "skip_ws cs = d # ds"
      by (auto split: list.splits)
    show ?thesis
    proof (cases "d = 0x5D")
      case True
      then show ?thesis using "2.prems" sk arr sk2 by auto
    next
      case False
      then obtain xs where pe: "parse_elements n cs = Inr (xs, r)" and v: "v = JArr xs"
        using "2.prems" sk arr sk2 by (auto split: sum.splits)
      show ?thesis using "2.IH"(1)[OF sk arr sk2 False pe] v by simp
    qed
  next
    case obj
    from "2.prems" sk obj obtain d ds where sk2: "skip_ws cs = d # ds"
      by (auto split: list.splits)
    show ?thesis
    proof (cases "d = 0x7D")
      case True
      then show ?thesis using "2.prems" sk obj sk2 by auto
    next
      case False
      then obtain ms where pm: "parse_members n cs = Inr (ms, r)" and v: "v = obj_of_members ms"
        using "2.prems" sk obj sk2 by (auto split: sum.splits)
      show ?thesis
        using "2.IH"(2)[OF sk obj(1) obj(2) sk2 False pm] v obj_of_members_canonical by simp
    qed
  next
    case other
    then show ?thesis
      using "2.prems" sk by (auto split: if_splits option.splits dest: json_number_canonical)
  qed
next
  case (3 s)
  then show ?case by simp
next
  case (4 n s)
  from "4.prems" obtain v r1 where pv: "parse_value n s = Inr (v, r1)"
    by (auto split: sum.splits)
  have dv: "all_numbers canonical v" using "4.IH"(1)[OF pv] .
  from "4.prems" pv obtain c cs where sk: "skip_ws r1 = c # cs"
    by (auto split: list.splits)
  show ?case
  proof (cases "c = 0x2C")
    case True
    then obtain ws where pe: "parse_elements n cs = Inr (ws, r)" and vs: "vs = v # ws"
      using "4.prems" pv sk by (auto split: sum.splits)
    show ?thesis using "4.IH"(2)[OF pv refl sk True pe] dv vs by simp
  next
    case False
    then have "vs = [v]" using "4.prems" pv sk by (auto split: if_splits)
    then show ?thesis using dv by simp
  qed
next
  case (5 s)
  then show ?case by simp
next
  case (6 n s)
  from "6.prems" obtain q qs where sk: "skip_ws s = q # qs"
    by (auto split: list.splits)
  from "6.prems" sk have q: "q = 0x22" by (auto split: if_splits)
  from "6.prems" sk q obtain k r0 where pc: "parse_chars qs = Some (k, r0)"
    by (auto split: option.splits)
  from "6.prems" sk q pc obtain d ds where sk2: "skip_ws r0 = d # ds"
    by (auto split: list.splits)
  from "6.prems" sk q pc sk2 have d: "d = 0x3A" by (auto split: if_splits)
  from "6.prems" sk q pc sk2 d obtain v r2 where pv: "parse_value n ds = Inr (v, r2)"
    by (auto split: sum.splits)
  from "6.prems" sk q pc sk2 d pv obtain c cs where sk3: "skip_ws r2 = c # cs"
    by (auto split: list.splits)
  have dv: "all_numbers canonical v" using "6.IH"(1)[OF sk q pc refl sk2 d pv] .
  show ?case
  proof (cases "c = 0x2C")
    case True
    then obtain ws where pm: "parse_members n cs = Inr (ws, r)" and ms: "ms = (k, v) # ws"
      using "6.prems" sk q pc sk2 d pv sk3 by (auto split: sum.splits)
    show ?thesis
      using "6.IH"(2)[OF sk q pc refl sk2 d pv refl sk3 True pm] dv ms by simp
  next
    case False
    then have "ms = [(k, v)]" using "6.prems" sk q pc sk2 d pv sk3 by (auto split: if_splits)
    then show ?thesis using dv by simp
  qed
qed

lemma join_comma_length:
  "sum_list (map (\<lambda>l. Suc (length l)) ls) \<le> Suc (length (join_comma ls))"
  by (induction ls rule: join_comma.induct) simp_all

lemma stable_text_length:
  assumes "stable nf x"
  shows "1 \<le> length (JSON_stringify nf (JNum x))"
  using json_number_head[OF stable_text[OF assms]] by auto

lemma parse_depth_length:
  "all_numbers (stable nf) v \<Longrightarrow> parse_depth v \<le> length (JSON_stringify nf v)"
proof (induction v)
  case (JNum x)
  then show ?case using stable_text_length[of nf x] by simp
next
  case (JArr xs)
  have "sum_list (map (\<lambda>x. Suc (parse_depth x)) xs) \<le>
        sum_list (map (\<lambda>x. Suc (length (JSON_stringify nf x))) xs)"
    using JArr by (intro sum_list_mono) simp
  also have "\<dots> = sum_list (map (\<lambda>l. Suc (length l)) (map (JSON_stringify nf) xs))"
    by (simp add: comp_def)
  also have "\<dots> \<le> Suc (length (join_comma (map (JSON_stringify nf) xs)))"
    by (rule join_comma_length)
  finally show ?case by simp
next
  case (JObj kvs)
  let ?m = "\<lambda>kv. QuoteJSONString (fst kv) @ 0x3A # JSON_stringify nf (snd kv)"
  have "sum_list (map (\<lambda>kv. Suc (parse_depth (snd kv))) kvs) \<le>
        sum_list (map (\<lambda>kv. Suc (length (?m kv))) kvs)"
  proof (intro sum_list_mono)
    fix kv assume kv: "kv \<in> set kvs"
    have "snd kv \<in> Basic_BNFs.snds kv" by (cases kv) simp
    then have "parse_depth (snd kv) \<le> length (JSON_stringify nf (snd kv))"
      using JObj.IH[OF kv] JObj.prems kv by simp
    then show "Suc (parse_depth (snd kv)) \<le> Suc (length (?m kv))" by simp
  qed
  also have "\<dots> = sum_list (map (\<lambda>l. Suc (length l)) (map ?m kvs))"
    by (simp add: comp_def)
  also have "\<dots> \<le> Suc (length (join_comma (map ?m kvs)))"
    by (rule join_comma_length)
  finally show ?case by simp
qed (simp_all add: lit_def QuoteJSONString_def)

lemma JSON_roundtrip:
  assumes "all_numbers (stable nf) v" "distinct_keys v"
  shows "JSON_parse (JSON_stringify nf v) = Inr (positive_zeros v)"
proof -
  have "parse_depth v \<le> 2 * length (JSON_stringify nf v) + 1"
    using parse_depth_length[OF assms(1)] by simp
  then have "parse_value (2 * length (JSON_stringify nf v) + 1) (JSON_stringify nf v @ []) =
               Inr (positive_zeros v, [])"
    by (intro roundtrip_value assms) (simp_all add: delimiter_def)
  then show ?thesis by (simp add: JSON_parse_def skip_ws_def)
qed

lemma JSON_parse_distinct_keys: "JSON_parse s = Inr v \<Longrightarrow> distinct_keys v"
  by (auto simp: JSON_parse_def simp del: parse_value.simps split: sum.splits if_splits
      dest: parse_distinct_keys(1))

lemma JSON_parse_canonical: "JSON_parse s = Inr v \<Longrightarrow> all_numbers canonical v"
  by (auto simp: JSON_parse_def simp del: parse_value.simps split: sum.splits if_splits
      dest: parse_canonical(1))

lemma getStoredData_loaded:
  "distinct_keys (getStoredData ls)" "truthy (getStoredData ls)"
  "all_numbers canonical (getStoredData ls)"
  by (auto simp: getStoredData_def getStoredData_try_def split: sum.splits
      dest: JSON_parse_distinct_keys JSON_parse_canonical)

lemma truthy_positive_zeros: "truthy (positive_zeros v) = truthy v"
proof (cases v)
  case (JNum x)
  then show ?thesis by (cases x) simp_all
qed simp_all

lemma positive_zeros_id:
  "all_numbers (\<lambda>x. x \<noteq> Finite True 0) v \<Longrightarrow> positive_zeros v = v"
proof (induction v)
  case (JNum x)
  then show ?case by (cases x) auto
next
  case (JArr xs)
  then show ?case by (simp add: map_idI)
next
  case (JObj kvs)
  have "map (\<lambda>kv. (fst kv, positive_zeros (snd kv))) kvs = map (\<lambda>kv. kv) kvs"
  proof (rule map_cong[OF refl])
    fix kv assume kv: "kv \<in> set kvs"
    have "snd kv \<in> Basic_BNFs.snds kv" by (cases kv) simp
    then have "positive_zeros (snd kv) = snd kv" using JObj.IH[OF kv] JObj.prems kv by simp
    then show "(fst kv, positive_zeros (snd kv)) = kv" by simp
  qed
  then show ?case by simp
qed simp_all

text \<open>
  C9 as amended. For every stored text whose loaded record holds no number that is
  too large for a finite double, at any depth: loading, saving the loaded value
  unchanged and loading again gives the record of the first load with each negative
  zero in it replaced by the positive zero, and so the record of the first load itself
  when it holds no negative zero. The text that \<^verbatim>\<open>Number::toString\<close> gives for a finite
  double other than zero is taken to read back as that double, which ECMAScript
  guarantees of it.
\<close>

theorem store_roundtrip:
  assumes "\<forall>x\<in>set (numbers (getStoredData ls)). isFinite x"
    and "\<forall>x\<in>set (numbers (getStoredData ls)). \<not> is_zero x \<longrightarrow> reads_back nf x"
  shows "getStoredData (setStoredData nf (getStoredData ls) ls) = positive_zeros (getStoredData ls) \<and>
         ((\<forall>x\<in>set (numbers (getStoredData ls)). x \<noteq> Finite True 0) \<longrightarrow>
            getStoredData (setStoredData nf (getStoredData ls) ls) = getStoredData ls)"
proof -
  have "all_numbers (\<lambda>x. canonical x \<and> isFinite x \<and> (\<not> is_zero x \<longrightarrow> reads_back nf x))
          (getStoredData ls)"
    using assms getStoredData_loaded(3)[of ls] by (simp add: all_numbers_iff)
  then have "all_numbers (stable nf) (getStoredData ls)"
    by (rule all_numbers_mono) (simp add: stable_def)
  then have "JSON_parse (JSON_stringify nf (getStoredData ls)) = Inr (positive_zeros (getStoredData ls))"
    using getStoredData_loaded(1) by (rule JSON_roundtrip)
  then have a: "getStoredData (setStoredData nf (getStoredData ls) ls) = positive_zeros (getStoredData ls)"
    using getStoredData_loaded(2)[of ls]
    by (simp add: setStoredData_def getStoredData_def[of "Some _"] getStoredData_try_def
        truthy_positive_zeros)
  have "positive_zeros (getStoredData ls) = getStoredData ls"
    if "\<forall>x\<in>set (numbers (getStoredData ls)). x \<noteq> Finite True 0"
    using that by (intro positive_zeros_id) (simp add: all_numbers_iff)
  then show ?thesis using a by simp
qed

lemma sample_12_5:
  \<open>getStoredData (Some (lit ''{"netWeight":12.5}'')) =
     JObj [(lit ''netWeight'', JNum (Finite False (25 / 2)))]\<close>
  \<open>json_number (lit ''12.5'') = Some (Finite False (25 / 2), [])\<close>
  by (simp_all add: store_defs json_defs char_defs parse_numeral double_12_5
      rounds_to_zero_def cong: weak_congs)

lemma sample_negative_zero:
  \<open>getStoredData (Some (lit ''{"a":-0}'')) = JObj [(lit ''a'', JNum (Finite True 0))]\<close>
  by (simp add: store_defs json_defs char_defs parse_numeral double_zero rounds_to_zero_def
      cong: weak_congs)

theorem store_roundtrip_witness:
  \<open>numbers (getStoredData (Some (lit ''{"netWeight":12.5}''))) = [Finite False (25 / 2)] \<and>
   isFinite (Finite False (25 / 2)) \<and> \<not> is_zero (Finite False (25 / 2)) \<and>
   Finite False (25 / 2) \<noteq> Finite True 0 \<and>
   reads_back only_12_5 (Finite False (25 / 2)) \<and>
   getStoredData (setStoredData only_12_5 (getStoredData (Some (lit ''{"netWeight":12.5}'')))
                    (Some (lit ''{"netWeight":12.5}''))) =
     JObj [(lit ''netWeight'', JNum (Finite False (25 / 2)))] \<and>
   numbers (getStoredData (Some step1_record_json)) = [] \<and>
   getStoredData (setStoredData no_numbers (getStoredData (Some step1_record_json))
                    (Some step1_record_json)) = step1_record \<and>
   numbers (getStoredData (Some (lit ''{"a":-0}''))) = [Finite True 0] \<and>
   isFinite (Finite True 0) \<and> is_zero (Finite True 0) \<and>
   getStoredData (setStoredData no_numbers (getStoredData (Some (lit ''{"a":-0}'')))
                    (Some (lit ''{"a":-0}''))) = JObj [(lit ''a'', JNum (Finite False 0))]\<close>
proof -
  have a: "isFinite (Finite False (25 / 2))" "\<not> is_zero (Finite False (25 / 2))"
    by (simp_all add: rounds_to_infinity_def rounds_to_zero_def)
  have b: "reads_back only_12_5 (Finite False (25 / 2))"
    by (simp add: reads_back_def only_12_5_def sample_12_5(2))
  have c: "numbers (getStoredData (Some step1_record_json)) = []"
    unfolding getStoredData_step1_record by (simp add: step1_record_def)
  have d: \<open>getStoredData (setStoredData only_12_5 (getStoredData (Some (lit ''{"netWeight":12.5}'')))
                    (Some (lit ''{"netWeight":12.5}''))) =
     JObj [(lit ''netWeight'', JNum (Finite False (25 / 2)))]\<close>
    using a b store_roundtrip [of \<open>Some (lit ''{"netWeight":12.5}'')\<close> only_12_5, THEN conjunct2]
    by (simp add: sample_12_5(1))
  have e: "getStoredData (setStoredData no_numbers (getStoredData (Some step1_record_json))
                    (Some step1_record_json)) = step1_record"
    using c store_roundtrip [of "Some step1_record_json" no_numbers, THEN conjunct2]
    by (simp add: getStoredData_step1_record)
  have f: "isFinite (Finite True 0)" "is_zero (Finite True 0)"
    by (simp_all add: rounds_to_infinity_def rounds_to_zero_def)
  have g: \<open>getStoredData (setStoredData no_numbers (getStoredData (Some (lit ''{"a":-0}'')))
                    (Some (lit ''{"a":-0}''))) = JObj [(lit ''a'', JNum (Finite False 0))]\<close>
    using f store_roundtrip [of \<open>Some (lit ''{"a":-0}'')\<close> no_numbers, THEN conjunct1]
    by (simp add: sample_negative_zero)
  show ?thesis
    using a b c d e f g by (simp add: sample_12_5(1) sample_negative_zero)
qed

text \<open>
  C9 as stated fails: the stored text \<^verbatim>\<open>{"a":1e400}\<close> is valid JSON and loads with the
  number above every finite double, which \<^verbatim>\<open>JSON.stringify\<close> writes as \<^verbatim>\<open>null\<close>; the second
  load gives \<^verbatim>\<open>{"a":null}\<close>, not the record of the first load. The stored text
  \<^verbatim>\<open>{"a":-0}\<close> loads with the negative zero, which is written as \<^verbatim>\<open>0\<close>; the second load
  gives the positive zero.
\<close>

theorem store_roundtrip_overflow_counterexample:
  \<open>getStoredData (Some (lit ''{"a":1e400}'')) = JObj [(lit ''a'', JNum (Infinity False))] \<and>
   getStoredData (setStoredData no_numbers (getStoredData (Some (lit ''{"a":1e400}'')))
                    (Some (lit ''{"a":1e400}''))) = JObj [(lit ''a'', JNull)] \<and>
   getStoredData (Some (lit ''{"a":-0}'')) = JObj [(lit ''a'', JNum (Finite True 0))] \<and>
   getStoredData (setStoredData no_numbers (getStoredData (Some (lit ''{"a":-0}'')))
                    (Some (lit ''{"a":-0}''))) = JObj [(lit ''a'', JNum (Finite False 0))]\<close>
proof -
  have a: \<open>getStoredData (Some (lit ''{"a":1e400}'')) = JObj [(lit ''a'', JNum (Infinity False))]\<close>
    by (simp add: store_defs json_defs char_defs parse_numeral to_double_def rounds_to_infinity_def
        cong: weak_congs)
  have b: \<open>JSON_stringify no_numbers (JObj [(lit ''a'', JNum (Infinity False))]) = lit ''{"a":null}''\<close>
    by (simp add: quote_defs lit_def)
  have c: \<open>getStoredData (Some (lit ''{"a":null}'')) = JObj [(lit ''a'', JNull)]\<close>
    by (simp add: store_defs json_defs char_defs parse_numeral cong: weak_congs)
  have d: \<open>getStoredData (setStoredData no_numbers (JObj [(lit ''a'', JNum (Infinity False))])
                    (Some (lit ''{"a":1e400}''))) = JObj [(lit ''a'', JNull)]\<close>
    by (simp only: setStoredData_def b c)
  have e: \<open>getStoredData (Some (lit ''{"a":-0}'')) = JObj [(lit ''a'', JNum (Finite True 0))]\<close>
    by (rule sample_negative_zero)
  have f: \<open>JSON_stringify no_numbers (JObj [(lit ''a'', JNum (Finite True 0))]) = lit ''{"a":0}''\<close>
    by (simp add: quote_defs lit_def rounds_to_infinity_def rounds_to_zero_def)
  have g: \<open>getStoredData (Some (lit ''{"a":0}'')) = JObj [(lit ''a'', JNum (Finite False 0))]\<close>
    by (simp add: store_defs json_defs char_defs parse_numeral double_zero rounds_to_zero_def
        cong: weak_congs)
  have h: \<open>getStoredData (setStoredData no_numbers (JObj [(lit ''a'', JNum (Finite True 0))])
                    (Some (lit ''{"a":-0}''))) = JObj [(lit ''a'', JNum (Finite False 0))]\<close>
    by (simp only: setStoredData_def f g)
  show ?thesis
    by (intro conjI, rule a, simp only: a d, rule e, simp only: e h)
qed

end
